theory Spec2Isabelle
  imports Complex_Main "HOL-Library.Word" "HOL-Library.AList"
begin

unbundle bit_operations_syntax

section \<open>Data model (core/types.ts)\<close>

text \<open>
  JavaScript numbers that hold counts, lengths, indices and coordinates are modelled as
  \<open>nat\<close> (or \<open>int\<close> where the source subtracts), values the source treats with
  32-bit bitwise operators as \<open>32 word\<close>, bytes of a \<open>Uint8Array\<close> as
  \<open>8 word\<close>, and a string as the sequence of its 16-bit code units. Every
  \<open>throw new Error(...)\<close> of the source is a constructor of \<open>error\<close>; a function that
  can throw returns \<open>error + 'a\<close>.
\<close>

type_synonym byte = "8 word"
type_synonym int32 = "32 word"
type_synonym jsstring = "16 word list"

text \<open>A string literal of the source whose characters are all ASCII.\<close>

definition ascii :: "string \<Rightarrow> jsstring" where
  "ascii s = map (\<lambda>c. of_nat (of_char c)) s"

subsection \<open>Floating-point numbers\<close>

text \<open>
  A number that takes part in floating-point arithmetic (\<open>safetyMargin\<close>, \<open>BIT_DENSITY\<close>
  and what is computed from them) is a binary64 value: a finite value, held as the rational
  it denotes, an infinity or NaN. Zero carries no sign: the source multiplies and divides
  counts and literals and tests the results with \<open><=\<close>, \<open>>\<close> and \<open>Math.max\<close>, where
  \<open>-0\<close> and \<open>0\<close> give the same outcome.
\<close>

datatype number = Num rat | PosInf | NegInf | NaN

text \<open>The number of binary digits of \<open>n\<close>.\<close>

fun bit_length :: "nat \<Rightarrow> nat" where
  "bit_length n = (if n = 0 then 0 else Suc (bit_length (n div 2)))"

declare bit_length.simps [simp del]

definition pow2 :: "int \<Rightarrow> rat" where
  "pow2 e = (if 0 \<le> e then 2 ^ nat e else 1 / 2 ^ nat (- e))"

text \<open>The binary exponent of \<open>x > 0\<close>: the \<open>e\<close> with \<open>2^e \<le> x < 2^(e+1)\<close>.\<close>

definition ilog2 :: "rat \<Rightarrow> int" where
  "ilog2 x = (if 1 \<le> x then int (bit_length (nat \<lfloor>x\<rfloor>)) - 1
              else - int (bit_length (nat (\<lceil>1 / x\<rceil> - 1))))"

text \<open>The nearest integer, a tie going to the even one.\<close>

definition round_even :: "rat \<Rightarrow> int" where
  "round_even y =
     (let f = \<lfloor>y\<rfloor>; d = y - of_int f
      in if d < 1 / 2 then f else if 1 / 2 < d then f + 1 else if even f then f else f + 1)"

text \<open>
  IEEE 754 rounding of an exact result to binary64 (round to nearest, ties to even): \<open>x\<close>
  is rounded to a multiple of the unit in the last place of its binade, \<open>2^(e - 52)\<close>, where
  the exponent \<open>e\<close> is at least \<open>-1022\<close> (below that the values are subnormal); a result
  of magnitude \<open>2^1024\<close> is an infinity.
\<close>

definition to_double :: "rat \<Rightarrow> number" where
  "to_double x =
     (if x = 0 then Num 0
      else let e = max (ilog2 \<bar>x\<bar>) (- 1022);
               ulp = pow2 (e - 52);
               r = of_int (round_even (x / ulp)) * ulp
           in if pow2 1024 \<le> \<bar>r\<bar> then (if 0 < x then PosInf else NegInf) else Num r)"

definition is_negative :: "number \<Rightarrow> bool" where
  "is_negative a = (case a of Num x \<Rightarrow> x < 0 | NegInf \<Rightarrow> True | _ \<Rightarrow> False)"

text \<open>\<open>a * b\<close>, \<open>a / b\<close> and \<open>a - b\<close>.\<close>

definition js_mul :: "number \<Rightarrow> number \<Rightarrow> number" where
  "js_mul a b =
     (if a = NaN \<or> b = NaN then NaN
      else case (a, b) of
        (Num x, Num y) \<Rightarrow> to_double (x * y)
      | _ \<Rightarrow> if a = Num 0 \<or> b = Num 0 then NaN
             else if is_negative a = is_negative b then PosInf else NegInf)"

definition js_div :: "number \<Rightarrow> number \<Rightarrow> number" where
  "js_div a b =
     (if a = NaN \<or> b = NaN then NaN
      else case (a, b) of
        (Num x, Num y) \<Rightarrow>
          if y \<noteq> 0 then to_double (x / y)
          else if x = 0 then NaN else if 0 < x then PosInf else NegInf
      | (Num x, _) \<Rightarrow> Num 0
      | (_, Num y) \<Rightarrow> if is_negative a = is_negative b then PosInf else NegInf
      | _ \<Rightarrow> NaN)"

definition js_sub :: "number \<Rightarrow> number \<Rightarrow> number" where
  "js_sub a b =
     (if a = NaN \<or> b = NaN then NaN
      else case (a, b) of
        (Num x, Num y) \<Rightarrow> to_double (x - y)
      | (Num x, PosInf) \<Rightarrow> NegInf
      | (Num x, _) \<Rightarrow> PosInf
      | (_, Num y) \<Rightarrow> a
      | _ \<Rightarrow> if a = b then NaN else a)"

text \<open>\<open>Math.floor\<close>, \<open>Math.max\<close>, \<open>a <= b\<close> and \<open>a > b\<close>.\<close>

definition js_floor :: "number \<Rightarrow> number" where
  "js_floor a = (case a of Num x \<Rightarrow> Num (of_int \<lfloor>x\<rfloor>) | _ \<Rightarrow> a)"

definition js_le :: "number \<Rightarrow> number \<Rightarrow> bool" where
  "js_le a b =
     (if a = NaN \<or> b = NaN then False
      else case (a, b) of
        (Num x, Num y) \<Rightarrow> x \<le> y
      | _ \<Rightarrow> a = NegInf \<or> b = PosInf)"

definition js_gt :: "number \<Rightarrow> number \<Rightarrow> bool" where
  "js_gt a b =
     (if a = NaN \<or> b = NaN then False
      else case (a, b) of
        (Num x, Num y) \<Rightarrow> y < x
      | _ \<Rightarrow> a \<noteq> b \<and> (a = PosInf \<or> b = NegInf))"

definition js_max :: "number \<Rightarrow> number \<Rightarrow> number" where
  "js_max a b = (if a = NaN \<or> b = NaN then NaN else if js_le a b then b else a)"

datatype error =
    PrimaryEncodeError          \<comment> \<open>the QR engine rejects the primary text\<close>
  | MatrixTooSmall              \<comment> \<open>'No flippable modules found - QR code too small'\<close>
  | InsufficientCapacity        \<comment> \<open>'Insufficient capacity for hidden message'\<close>
  | PayloadTooLarge nat number  \<comment> \<open>'Secondary message too large: .. bytes, max .. bytes'\<close>
  | CapacityExceeded nat nat    \<comment> \<open>'Cannot fit .. bits into .. modules'\<close>
  | ShortFrame                  \<comment> \<open>'Insufficient bits for valid message'\<close>
  | BadLength nat               \<comment> \<open>'Invalid message length: ..'\<close>
  | ChecksumMismatch nat nat    \<comment> \<open>'Checksum mismatch: expected .., got ..'\<close>
  | SizeMismatch                \<comment> \<open>'Matrix size mismatch'\<close>
  | TypeError                   \<comment> \<open>property read on \<open>undefined\<close>\<close>

datatype ECLevel = L | M | Q | H

datatype ModuleType =
    FINDER_PATTERN | SEPARATOR | TIMING_PATTERN | ALIGNMENT_PATTERN | FORMAT_INFO
  | VERSION_INFO | DATA_CODEWORD | EC_CODEWORD | REMAINDER

record QRModule =
  mod_x :: nat
  mod_y :: nat
  mod_value :: bool
  mod_type :: ModuleType
  mod_isFlippable :: bool

record QRMatrix =
  msize :: nat
  modules :: "QRModule list list"
  mversion :: nat
  errorCorrectionLevel :: ECLevel
  maskPattern :: nat
  flippedModuleCount :: "nat option"

record ModulePosition =
  pos_x :: nat
  pos_y :: nat
  pos_index :: nat

text \<open>
  \<open>FlipMap.encoding\<close> is a JavaScript \<open>Map\<close>: an association list in insertion order;
  \<open>Map.set\<close> on a key already present replaces its value in place (\<open>AList.update\<close>).
\<close>

record FlipMap =
  positions :: "ModulePosition list"
  encoding :: "(nat \<times> bool) list"

record StegoMetadata =
  meta_version :: jsstring
  meta_flippedModuleCount :: nat
  ecLevelUsed :: ECLevel
  capacityUsed :: number

record StegoPayload =
  primaryMessage :: jsstring
  secondaryMessage :: jsstring
  metadata :: StegoMetadata

record EncodeOptions =
  opt_ecLevel :: "ECLevel option"
  opt_safetyMargin :: "number option"

text \<open>
  The QR engine (the library \<open>nayuki-qr-code-generator\<close>) is outside the repository.
  A \<open>QrCode\<close> holds what the code reads from the engine's result; the engine itself,
  \<open>QrCode.encodeText\<close>, is a parameter \<open>encodeText\<close> of every function that calls it and
  returns \<open>None\<close> where the library throws.
\<close>

record QrCode =
  qr_size :: nat
  qr_version :: nat
  qr_mask :: nat
  qr_errorCorrectionLevel :: ECLevel
  qr_getModule :: "nat \<Rightarrow> nat \<Rightarrow> bool"
  qr_isFunction :: "bool list list"

type_synonym engine = "jsstring \<Rightarrow> ECLevel \<Rightarrow> QrCode option"

text \<open>Array reads: an index past the end gives \<open>undefined\<close>.\<close>

definition nth_opt :: "'a list \<Rightarrow> nat \<Rightarrow> 'a option" where
  "nth_opt xs i = (if i < length xs then Some (xs ! i) else None)"

section \<open>Bit framing (utils/bit-utils.ts)\<close>

subsection \<open>The platform's text codec\<close>

text \<open>
  \<open>new TextEncoder().encode\<close> and \<open>new TextDecoder().decode\<close> are platform functions;
  they are modelled after the WHATWG Encoding Standard. Code points are natural numbers.

  \<open>TextEncoder.encode\<close> first converts the string to a sequence of scalar values: a lead
  surrogate followed by a trail surrogate is one supplementary code point, any other
  surrogate becomes U+FFFD.
\<close>

definition is_lead :: "16 word \<Rightarrow> bool" where
  "is_lead c = (0xD800 \<le> unat c \<and> unat c \<le> 0xDBFF)"

definition is_trail :: "16 word \<Rightarrow> bool" where
  "is_trail c = (0xDC00 \<le> unat c \<and> unat c \<le> 0xDFFF)"

definition is_surrogate :: "16 word \<Rightarrow> bool" where
  "is_surrogate c = (0xD800 \<le> unat c \<and> unat c \<le> 0xDFFF)"

fun scalar_values :: "jsstring \<Rightarrow> nat list" where
  "scalar_values [] = []"
| "scalar_values [c] = [if is_surrogate c then 0xFFFD else unat c]"
| "scalar_values (c # d # cs) =
     (if is_lead c \<and> is_trail d
      then (0x10000 + (unat c - 0xD800) * 0x400 + (unat d - 0xDC00)) # scalar_values cs
      else (if is_surrogate c then 0xFFFD else unat c) # scalar_values (d # cs))"

text \<open>The UTF-8 encoder: the bytes of one scalar value.\<close>

definition utf8_bytes :: "nat \<Rightarrow> nat list" where
  "utf8_bytes cp =
     (if cp < 0x80 then [cp]
      else if cp < 0x800 then [0xC0 + cp div 0x40, 0x80 + cp mod 0x40]
      else if cp < 0x10000
        then [0xE0 + cp div 0x1000, 0x80 + cp div 0x40 mod 0x40, 0x80 + cp mod 0x40]
      else [0xF0 + cp div 0x40000, 0x80 + cp div 0x1000 mod 0x40,
            0x80 + cp div 0x40 mod 0x40, 0x80 + cp mod 0x40])"

definition TextEncoder_encode :: "jsstring \<Rightarrow> byte list" where
  "TextEncoder_encode message = map of_nat (concat (map utf8_bytes (scalar_values message)))"

text \<open>
  The UTF-8 decoder of the standard, with error mode \<open>replacement\<close>. Its state is the code
  point under construction, the number of continuation bytes still needed (\<open>bytes needed\<close>
  minus \<open>bytes seen\<close>; \<open>0\<close> between characters) and the bounds of the next continuation
  byte. A byte that cannot continue the sequence ends it with U+FFFD and is read again
  as the start of a sequence; input that ends inside a sequence ends with U+FFFD.
  \<open>(code point << 6) | (byte & 0x3F)\<close> is \<open>code point * 64 + byte mod 64\<close>.
\<close>

function utf8_decoder :: "nat \<Rightarrow> nat \<Rightarrow> nat \<Rightarrow> nat \<Rightarrow> nat list \<Rightarrow> nat list" where
  "utf8_decoder cp needed lower upper [] = (if needed \<noteq> 0 then [0xFFFD] else [])"
| "utf8_decoder cp needed lower upper (b # bs) =
     (if needed = 0 then
        (if b \<le> 0x7F then b # utf8_decoder 0 0 0x80 0xBF bs
         else if 0xC2 \<le> b \<and> b \<le> 0xDF then utf8_decoder (b mod 0x20) 1 0x80 0xBF bs
         else if 0xE0 \<le> b \<and> b \<le> 0xEF
           then utf8_decoder (b mod 0x10) 2 (if b = 0xE0 then 0xA0 else 0x80)
                  (if b = 0xED then 0x9F else 0xBF) bs
         else if 0xF0 \<le> b \<and> b \<le> 0xF4
           then utf8_decoder (b mod 0x08) 3 (if b = 0xF0 then 0x90 else 0x80)
                  (if b = 0xF4 then 0x8F else 0xBF) bs
         else 0xFFFD # utf8_decoder 0 0 0x80 0xBF bs)
      else if \<not> (lower \<le> b \<and> b \<le> upper)
        then 0xFFFD # utf8_decoder 0 0 0x80 0xBF (b # bs)
      else if needed = 1
        then (cp * 0x40 + b mod 0x40) # utf8_decoder 0 0 0x80 0xBF bs
      else utf8_decoder (cp * 0x40 + b mod 0x40) (needed - 1) 0x80 0xBF bs)"
  by pat_completeness auto
termination
  by (relation "measure (\<lambda>(cp, needed, lower, upper, bs).
                  2 * length bs + (if needed = 0 then 0 else 1))") auto

declare utf8_decoder.simps [simp del]

text \<open>
  \<open>new TextDecoder()\<close> has \<open>ignoreBOM = false\<close>: a leading U+FEFF of the decoded
  text is dropped. The code points are then written as UTF-16 code units.
\<close>

definition strip_bom :: "nat list \<Rightarrow> nat list" where
  "strip_bom cps = (case cps of [] \<Rightarrow> [] | c # cs \<Rightarrow> if c = 0xFEFF then cs else cps)"

definition utf16_units :: "nat \<Rightarrow> 16 word list" where
  "utf16_units cp =
     (if cp < 0x10000 then [of_nat cp]
      else [of_nat (0xD800 + (cp - 0x10000) div 0x400),
            of_nat (0xDC00 + (cp - 0x10000) mod 0x400)])"

definition TextDecoder_decode :: "byte list \<Rightarrow> jsstring" where
  "TextDecoder_decode bytes =
     concat (map utf16_units (strip_bom (utf8_decoder 0 0 0x80 0xBF (map unat bytes))))"

subsection \<open>Checksum and frame\<close>

text \<open>The inner loop of \<open>calculateChecksum\<close>: \<open>k\<close> shifts of the register.\<close>

fun crc_shift :: "nat \<Rightarrow> int32 \<Rightarrow> int32" where
  "crc_shift 0 checksum = checksum"
| "crc_shift (Suc k) checksum =
     crc_shift k (if checksum AND 0x8000 \<noteq> 0
                  then push_bit 1 checksum XOR 0x1021
                  else push_bit 1 checksum)"

definition crc_byte :: "int32 \<Rightarrow> byte \<Rightarrow> int32" where
  "crc_byte checksum b = crc_shift 8 (checksum XOR push_bit 8 (ucast b))"

definition calculateChecksum :: "byte list \<Rightarrow> nat" where
  "calculateChecksum data = unat (foldl crc_byte 0xFFFF data AND 0xFFFF)"

text \<open>
  \<open>for (let i = n - 1; i >= 0; i--) bits.push(((v >> i) & 1) === 1)\<close>:
  the \<open>n\<close> low bits of \<open>v\<close>, most significant first.
\<close>

definition push_bits :: "nat \<Rightarrow> nat \<Rightarrow> bool list" where
  "push_bits n v = map (\<lambda>i. drop_bit i v AND 1 = 1) (rev [0..<n])"

definition encodeSecondaryMessage :: "jsstring \<Rightarrow> number \<Rightarrow> error + bool list" where
  "encodeSecondaryMessage message maxBits =
     (let messageBytes = TextEncoder_encode message;
          OVERHEAD_BITS = 32;
          totalBitsNeeded = OVERHEAD_BITS + length messageBytes * 8
      in if js_gt (Num (of_nat totalBitsNeeded)) maxBits
         then Inl (PayloadTooLarge (length messageBytes)
                     (js_floor (js_div (js_sub maxBits (Num (of_nat OVERHEAD_BITS))) (Num 8))))
         else Inr (push_bits 16 (length messageBytes)
                   @ concat (map (\<lambda>b. push_bits 8 (unat b)) messageBytes)
                   @ push_bits 16 (calculateChecksum messageBytes)))"

text \<open>\<open>bits[i]\<close> used as a condition: an index past the end reads \<open>undefined\<close>, which is falsy.\<close>

definition bit_at :: "bool list \<Rightarrow> nat \<Rightarrow> bool" where
  "bit_at bits i = (i < length bits \<and> bits ! i)"

text \<open>
  \<open>for (let i = 0; i < n; i++) if (bits[start + i]) v |= (1 << (n - 1 - i))\<close>.
\<close>

definition read_bits :: "bool list \<Rightarrow> nat \<Rightarrow> nat \<Rightarrow> nat" where
  "read_bits bits start n =
     fold (\<lambda>i v. if bit_at bits (start + i) then v OR push_bit (n - 1 - i) 1 else v) [0..<n] 0"

definition decodeSecondaryMessage :: "bool list \<Rightarrow> error + jsstring" where
  "decodeSecondaryMessage bits =
     (if length bits < 32 then Inl ShortFrame
      else let len = read_bits bits 0 16 in
        if int len * 8 > int (length bits) - 32 then Inl (BadLength len)
        else if len = 0 then Inr []
        else let messageBytes = map (\<lambda>byteIdx. of_nat (read_bits bits (16 + byteIdx * 8) 8)) [0..<len];
                 checksumStart = 16 + len * 8;
                 checksum = read_bits bits checksumStart 16;
                 expectedChecksum = calculateChecksum messageBytes
             in if checksum \<noteq> expectedChecksum
                then Inl (ChecksumMismatch expectedChecksum checksum)
                else Inr (TextDecoder_decode messageBytes))"

section \<open>Prime-step permutation (utils/prime-utils.ts)\<close>

text \<open>
  \<open>for (let i = 3; i <= Math.sqrt(n); i += 2) if (n % i === 0) return false\<close>.
  For integers \<open>i <= Math.sqrt(n)\<close> is \<open>i * i \<le> n\<close>.
\<close>

function isPrime_loop :: "nat \<Rightarrow> nat \<Rightarrow> bool" where
  "isPrime_loop i n =
     (if i * i \<le> n then (if n mod i = 0 then False else isPrime_loop (i + 2) n) else True)"
  by pat_completeness auto
termination
proof (relation "measure (\<lambda>(i, n). n + 1 - i)")
  show "wf (measure (\<lambda>(i, n). n + 1 - i))" by simp
next
  fix i n :: nat
  assume a: "i * i \<le> n"
  have "i \<le> i * i" by (cases i) auto
  then have "i \<le> n" using a by (rule le_trans)
  then show "((i + 2, n), (i, n)) \<in> measure (\<lambda>(i, n). n + 1 - i)" by simp
qed

declare isPrime_loop.simps [simp del]

definition isPrime :: "nat \<Rightarrow> bool" where
  "isPrime n =
     (if n < 2 then False
      else if n = 2 then True
      else if n mod 2 = 0 then False
      else isPrime_loop 3 n)"

text \<open>\<open>for (let candidate = max - 1; candidate > 2; candidate--)\<close>, from \<open>candidate\<close> on.\<close>

fun findLargePrime_from :: "nat \<Rightarrow> nat" where
  "findLargePrime_from candidate =
     (if candidate > 2
      then (if isPrime candidate then candidate else findLargePrime_from (candidate - 1))
      else 2)"

declare findLargePrime_from.simps [simp del]

definition findLargePrime :: "nat \<Rightarrow> nat" where
  "findLargePrime maxv = findLargePrime_from (maxv - 1)"

text \<open>The loop of \<open>generateDistributionPattern\<close> with \<open>k\<close> iterations left.\<close>

fun distribution_loop :: "nat \<Rightarrow> nat \<Rightarrow> nat \<Rightarrow> nat \<Rightarrow> nat list \<Rightarrow> nat list" where
  "distribution_loop 0 totalModules step current indices = indices"
| "distribution_loop (Suc k) totalModules step current indices =
     distribution_loop k totalModules step ((current + step) mod totalModules)
       (indices @ [current mod totalModules])"

definition generateDistributionPattern :: "nat \<Rightarrow> nat \<Rightarrow> error + nat list" where
  "generateDistributionPattern bitsNeeded totalModules =
     (if bitsNeeded > totalModules then Inl (CapacityExceeded bitsNeeded totalModules)
      else Inr (distribution_loop bitsNeeded totalModules (findLargePrime totalModules) 0 []))"

definition validateDistribution :: "nat list \<Rightarrow> bool" where
  "validateDistribution pattern = (card (set pattern) = length pattern)"

section \<open>Structural analyzer and capacity model (utils/qr-analyzer.ts)\<close>

definition ALIGNMENT_PATTERN_POSITIONS :: "nat \<Rightarrow> nat list option" where
  "ALIGNMENT_PATTERN_POSITIONS v =
     (if v = 2 then Some [6, 18]
      else if v = 3 then Some [6, 22]
      else if v = 4 then Some [6, 26]
      else if v = 5 then Some [6, 30]
      else if v = 6 then Some [6, 34]
      else if v = 7 then Some [6, 22, 38]
      else None)"

definition isInFinderPattern :: "nat \<Rightarrow> nat \<Rightarrow> nat \<Rightarrow> bool" where
  "isInFinderPattern x y sz =
     (let inTopLeft = (x < 9 \<and> y < 9);
          inTopRight = (int x \<ge> int sz - 8 \<and> y < 9);
          inBottomLeft = (x < 9 \<and> int y \<ge> int sz - 8)
      in inTopLeft \<or> inTopRight \<or> inBottomLeft)"

definition isInTimingPattern :: "nat \<Rightarrow> nat \<Rightarrow> bool" where
  "isInTimingPattern x y = (x = 6 \<or> y = 6)"

definition isInAlignmentPattern :: "nat \<Rightarrow> nat \<Rightarrow> nat \<Rightarrow> bool" where
  "isInAlignmentPattern x y v =
     (if v < 2 then False
      else case ALIGNMENT_PATTERN_POSITIONS v of
        None \<Rightarrow> False
      | Some ps \<Rightarrow>
          list_ex (\<lambda>centerX. list_ex (\<lambda>centerY.
            \<not> (centerX < 9 \<and> centerY < 9)
            \<and> \<bar>int x - int centerX\<bar> \<le> 2 \<and> \<bar>int y - int centerY\<bar> \<le> 2) ps) ps)"

definition isInFormatInfo :: "nat \<Rightarrow> nat \<Rightarrow> nat \<Rightarrow> bool" where
  "isInFormatInfo x y sz =
     (if y = 8 \<and> x \<le> 8 then True
      else if x = 8 \<and> y \<le> 8 then True
      else if y = 8 \<and> int x \<ge> int sz - 8 then True
      else if x = 8 \<and> int y \<ge> int sz - 7 then True
      else False)"

definition isInVersionInfo :: "nat \<Rightarrow> nat \<Rightarrow> nat \<Rightarrow> nat \<Rightarrow> bool" where
  "isInVersionInfo x y sz v =
     (if v < 7 then False
      else if x \<le> 5 \<and> int y \<ge> int sz - 11 \<and> int y \<le> int sz - 9 then True
      else if y \<le> 5 \<and> int x \<ge> int sz - 11 \<and> int x \<le> int sz - 9 then True
      else False)"

definition isFunctionPattern :: "nat \<Rightarrow> nat \<Rightarrow> QRMatrix \<Rightarrow> bool" where
  "isFunctionPattern x y qr =
     (if isInFinderPattern x y (msize qr) then True
      else if isInTimingPattern x y then True
      else if isInAlignmentPattern x y (mversion qr) then True
      else if isInFormatInfo x y (msize qr) then True
      else if isInVersionInfo x y (msize qr) (mversion qr) then True
      else False)"

text \<open>The coordinates visited by \<open>for (y ...) for (x ...)\<close>, in order.\<close>

definition cells :: "nat \<Rightarrow> (nat \<times> nat) list" where
  "cells sz = concat (map (\<lambda>y. map (\<lambda>x. (x, y)) [0..<sz]) [0..<sz])"

text \<open>One iteration of the inner loop of \<open>identifyFlippableModules\<close>.\<close>

definition flippable_step ::
  "QRMatrix \<Rightarrow> nat \<times> nat \<Rightarrow> error + ModulePosition list \<Rightarrow> error + ModulePosition list" where
  "flippable_step qr c acc =
     (case acc of
        Inl e \<Rightarrow> Inl e
      | Inr flippable \<Rightarrow>
          (case nth_opt (modules qr) (snd c) of
             None \<Rightarrow> Inl TypeError
           | Some row \<Rightarrow>
               if isFunctionPattern (fst c) (snd c) qr then Inr flippable
               else (case nth_opt row (fst c) of
                       None \<Rightarrow> Inl TypeError
                     | Some modu \<Rightarrow>
                         if mod_type modu = DATA_CODEWORD
                         then Inr (flippable @ [\<lparr>pos_x = mod_x modu, pos_y = mod_y modu,
                                                 pos_index = length flippable\<rparr>])
                         else Inr flippable)))"

definition identifyFlippableModules :: "QRMatrix \<Rightarrow> error + ModulePosition list" where
  "identifyFlippableModules qr = fold (flippable_step qr) (cells (msize qr)) (Inr [])"

text \<open>
  \<open>safetyMargin\<close> and \<open>BIT_DENSITY\<close> are doubles: the literals \<open>0.42\<close> and \<open>0.07\<close> denote
  the doubles nearest to \<open>42/100\<close> and \<open>7/100\<close>, and the product and the quotient are
  rounded before \<open>Math.floor\<close> is taken.
\<close>

definition BIT_DENSITY :: number where
  "BIT_DENSITY = to_double (42 / 100)"

definition DEFAULT_SAFETY_MARGIN :: number where
  "DEFAULT_SAFETY_MARGIN = to_double (7 / 100)"

definition calculateMaxCapacity :: "ModulePosition list \<Rightarrow> ECLevel \<Rightarrow> number \<Rightarrow> number" where
  "calculateMaxCapacity flippableModules ecLevel safetyMargin =
     (let totalFlippableModules = length flippableModules;
          targetFlips = js_floor (js_mul (Num (of_nat totalFlippableModules)) safetyMargin);
          totalBitsCapacity = js_floor (js_div targetFlips BIT_DENSITY)
      in js_max (Num 0) totalBitsCapacity)"

section \<open>Encoder (core/QRStegoEncoder.ts)\<close>

definition mapECLevel :: "ECLevel \<Rightarrow> ECLevel" where
  "mapECLevel ecLevel = (case ecLevel of L \<Rightarrow> L | M \<Rightarrow> M | Q \<Rightarrow> Q | H \<Rightarrow> H)"

definition unmapECLevel :: "ECLevel \<Rightarrow> ECLevel" where
  "unmapECLevel ecc = (if ecc = L then L else if ecc = M then M else if ecc = Q then Q else H)"

definition determineModuleType :: "nat \<Rightarrow> nat \<Rightarrow> QrCode \<Rightarrow> ModuleType" where
  "determineModuleType x y qr =
     (if (case nth_opt (qr_isFunction qr) y of None \<Rightarrow> False
          | Some row \<Rightarrow> (case nth_opt row x of None \<Rightarrow> False | Some f \<Rightarrow> f))
         \<and> isFunctionPattern x y
              \<lparr>msize = qr_size qr, modules = [], mversion = qr_version qr,
               errorCorrectionLevel = H, maskPattern = qr_mask qr, flippedModuleCount = None\<rparr>
      then FINDER_PATTERN
      else DATA_CODEWORD)"

definition convertToQRMatrix :: "QrCode \<Rightarrow> QRMatrix" where
  "convertToQRMatrix qr =
     \<lparr>msize = qr_size qr,
      modules = map (\<lambda>y. map (\<lambda>x.
                  \<lparr>mod_x = x, mod_y = y, mod_value = qr_getModule qr x y,
                   mod_type = determineModuleType x y qr,
                   mod_isFlippable = (determineModuleType x y qr = DATA_CODEWORD)\<rparr>)
                  [0..<qr_size qr]) [0..<qr_size qr],
      mversion = qr_version qr,
      errorCorrectionLevel = unmapECLevel (qr_errorCorrectionLevel qr),
      maskPattern = qr_mask qr,
      flippedModuleCount = None\<rparr>"

definition createFlipMap :: "bool list \<Rightarrow> ModulePosition list \<Rightarrow> error + FlipMap" where
  "createFlipMap secondaryBits flippableModules =
     (case generateDistributionPattern (length secondaryBits) (length flippableModules) of
        Inl e \<Rightarrow> Inl e
      | Inr indices \<Rightarrow>
          Inr \<lparr>positions = flippableModules,
               encoding = fold (\<lambda>i enc. AList.update (indices ! i) (secondaryBits ! i) enc)
                            [0..<length secondaryBits] []\<rparr>)"

text \<open>
  The state of the loop of \<open>applyFlips\<close>: the copied module grid, \<open>flippedCount\<close> and
  \<open>skippedFunctionPatterns\<close>.
\<close>

definition flip_step ::
  "QRMatrix \<Rightarrow> ModulePosition list \<Rightarrow> nat \<times> bool
     \<Rightarrow> error + QRModule list list \<times> nat \<times> nat \<Rightarrow> error + QRModule list list \<times> nat \<times> nat" where
  "flip_step qr ps entry acc =
     (case acc of
        Inl e \<Rightarrow> Inl e
      | Inr (ms, flippedCount, skippedFunctionPatterns) \<Rightarrow>
          if \<not> snd entry then Inr (ms, flippedCount, skippedFunctionPatterns)
          else (case nth_opt ps (fst entry) of
                  None \<Rightarrow> Inl TypeError
                | Some position \<Rightarrow>
                    (case nth_opt ms (pos_y position) of
                       None \<Rightarrow> Inl TypeError
                     | Some row \<Rightarrow>
                         if isFunctionPattern (pos_x position) (pos_y position) qr
                         then Inr (ms, flippedCount, skippedFunctionPatterns + 1)
                         else (case nth_opt row (pos_x position) of
                                 None \<Rightarrow> Inl TypeError
                               | Some modu \<Rightarrow>
                                   Inr (ms[pos_y position :=
                                             row[pos_x position :=
                                                   modu\<lparr>mod_value := \<not> mod_value modu\<rparr>]],
                                        flippedCount + 1, skippedFunctionPatterns)))))"

definition applyFlips :: "QRMatrix \<Rightarrow> FlipMap \<Rightarrow> error + QRMatrix" where
  "applyFlips qr flipMap =
     (case fold (flip_step qr (positions flipMap)) (encoding flipMap) (Inr (modules qr, 0, 0)) of
        Inl e \<Rightarrow> Inl e
      | Inr (ms, flippedCount, skippedFunctionPatterns) \<Rightarrow>
          Inr (qr\<lparr>modules := ms, flippedModuleCount := Some flippedCount\<rparr>))"

definition encode :: "engine \<Rightarrow> jsstring \<Rightarrow> jsstring \<Rightarrow> EncodeOptions \<Rightarrow> error + QRMatrix" where
  "encode encodeText primary secondary options =
     (let ecLevel = (case opt_ecLevel options of None \<Rightarrow> H | Some e \<Rightarrow> e);
          safetyMargin = (case opt_safetyMargin options of
                            None \<Rightarrow> DEFAULT_SAFETY_MARGIN | Some m \<Rightarrow> m)
      in case encodeText primary (mapECLevel ecLevel) of
           None \<Rightarrow> Inl PrimaryEncodeError
         | Some baseQR \<Rightarrow>
             let qrMatrix = convertToQRMatrix baseQR in
             (case identifyFlippableModules qrMatrix of
                Inl e \<Rightarrow> Inl e
              | Inr flippableModules \<Rightarrow>
                  if length flippableModules = 0 then Inl MatrixTooSmall
                  else let maxBits = calculateMaxCapacity flippableModules ecLevel safetyMargin in
                    if js_le maxBits (Num 0) then Inl InsufficientCapacity
                    else (case (if length secondary > 0
                                then encodeSecondaryMessage secondary maxBits
                                else Inr []) of
                            Inl e \<Rightarrow> Inl e
                          | Inr secondaryBits \<Rightarrow>
                              (case createFlipMap secondaryBits flippableModules of
                                 Inl e \<Rightarrow> Inl e
                               | Inr flipMap \<Rightarrow> applyFlips qrMatrix flipMap))))"

definition getCapacity :: "engine \<Rightarrow> jsstring \<Rightarrow> number \<Rightarrow> error + number" where
  "getCapacity encodeText primary safetyMargin =
     (case encodeText primary H of
        None \<Rightarrow> Inl PrimaryEncodeError
      | Some baseQR \<Rightarrow>
          (case identifyFlippableModules (convertToQRMatrix baseQR) of
             Inl e \<Rightarrow> Inl e
           | Inr flippableModules \<Rightarrow>
               let totalBits = calculateMaxCapacity flippableModules H safetyMargin;
                   OVERHEAD_BITS = 32;
                   messageBits = js_sub totalBits (Num OVERHEAD_BITS)
               in Inr (js_max (Num 0) (js_floor (js_div messageBits (Num 8))))))"

definition validateCapacity :: "engine \<Rightarrow> jsstring \<Rightarrow> jsstring \<Rightarrow> number \<Rightarrow> error + bool" where
  "validateCapacity encodeText primary secondary safetyMargin =
     (case getCapacity encodeText primary safetyMargin of
        Inl e \<Rightarrow> Inl e
      | Inr maxBytes \<Rightarrow>
          Inr (js_le (Num (of_nat (length (TextEncoder_encode secondary)))) maxBytes))"

section \<open>Renderer and public API (utils/renderer.ts, core/QRStego.ts)\<close>

definition getModules :: "QRMatrix \<Rightarrow> bool list list" where
  "getModules matrix = map (\<lambda>row. map (\<lambda>modu. mod_value modu) row) (modules matrix)"

record QRStegoResult =
  res_matrix :: QRMatrix
  res_metadata :: StegoMetadata

text \<open>\<open>QRStego.encode\<close> without the timestamp and the rendering closures.\<close>

definition QRStego_encode ::
  "engine \<Rightarrow> jsstring \<Rightarrow> jsstring \<Rightarrow> EncodeOptions \<Rightarrow> error + QRStegoResult" where
  "QRStego_encode encodeText primary secondary options =
     (case encode encodeText primary secondary options of
        Inl e \<Rightarrow> Inl e
      | Inr matrix \<Rightarrow>
          let flippedCount = (case flippedModuleCount matrix of None \<Rightarrow> 0 | Some c \<Rightarrow> c);
              totalModules = msize matrix * msize matrix
          in Inr \<lparr>res_matrix = matrix,
                  res_metadata =
                    \<lparr>meta_version = ascii ''1.0'', meta_flippedModuleCount = flippedCount,
                     ecLevelUsed = errorCorrectionLevel matrix,
                     capacityUsed = js_mul (js_div (Num (of_nat flippedCount))
                                              (Num (of_nat totalModules))) (Num 100)\<rparr>\<rparr>)"

section \<open>Decoder (core/QRStegoDecoder.ts)\<close>

definition qrToModuleMatrix :: "QrCode \<Rightarrow> bool list list" where
  "qrToModuleMatrix qr =
     map (\<lambda>y. map (\<lambda>x. qr_getModule qr x y) [0..<qr_size qr]) [0..<qr_size qr]"

definition convertToFullQRMatrix :: "QrCode \<Rightarrow> QRMatrix" where
  "convertToFullQRMatrix qr =
     \<lparr>msize = qr_size qr,
      modules = map (\<lambda>y. map (\<lambda>x.
                  let isFunctionMod = isFunctionPattern x y
                        \<lparr>msize = qr_size qr, modules = [], mversion = qr_version qr,
                         errorCorrectionLevel = H, maskPattern = qr_mask qr,
                         flippedModuleCount = None\<rparr>
                  in \<lparr>mod_x = x, mod_y = y, mod_value = qr_getModule qr x y,
                      mod_type = (if isFunctionMod then FINDER_PATTERN else DATA_CODEWORD),
                      mod_isFlippable = (\<not> isFunctionMod)\<rparr>)
                  [0..<qr_size qr]) [0..<qr_size qr],
      mversion = qr_version qr,
      errorCorrectionLevel = H,
      maskPattern = qr_mask qr,
      flippedModuleCount = None\<rparr>"

text \<open>
  One iteration of the loop of \<open>compareMatrices\<close>. \<open>scanned[pos.y][pos.x]\<close> throws when the
  row is missing and is \<open>undefined\<close> (\<open>None\<close>) when the column is; \<open>!==\<close> compares the two
  reads.
\<close>

definition compare_step ::
  "bool list list \<Rightarrow> bool list list \<Rightarrow> ModulePosition list \<Rightarrow> nat
     \<Rightarrow> error + nat list \<Rightarrow> error + nat list" where
  "compare_step scanned reference flippableModules i acc =
     (case acc of
        Inl e \<Rightarrow> Inl e
      | Inr flippedIndices \<Rightarrow>
          let pos = flippableModules ! i in
          (case nth_opt scanned (pos_y pos) of
             None \<Rightarrow> Inl TypeError
           | Some srow \<Rightarrow>
               (case nth_opt reference (pos_y pos) of
                  None \<Rightarrow> Inl TypeError
                | Some rrow \<Rightarrow>
                    if nth_opt srow (pos_x pos) \<noteq> nth_opt rrow (pos_x pos)
                    then Inr (flippedIndices @ [i])
                    else Inr flippedIndices)))"

definition compareMatrices ::
  "bool list list \<Rightarrow> bool list list \<Rightarrow> ModulePosition list \<Rightarrow> error + nat list" where
  "compareMatrices scanned reference flippableModules =
     (if length scanned \<noteq> length reference then Inl SizeMismatch
      else fold (compare_step scanned reference flippableModules)
             [0..<length flippableModules] (Inr []))"

text \<open>
  The two reading loops of \<open>extractBitsFromFlips\<close>, with \<open>k\<close> iterations left:
  \<open>bits.push(flipPositions.has(current % totalModules)); current = (current + step) % totalModules\<close>.
\<close>

fun extract_loop :: "nat \<Rightarrow> nat \<Rightarrow> nat \<Rightarrow> nat \<Rightarrow> nat list \<Rightarrow> bool list \<Rightarrow> bool list" where
  "extract_loop 0 totalModules step current flipPositions bits = bits"
| "extract_loop (Suc k) totalModules step current flipPositions bits =
     extract_loop k totalModules step ((current + step) mod totalModules) flipPositions
       (bits @ [current mod totalModules \<in> set flipPositions])"

definition extractBitsFromFlips :: "nat list \<Rightarrow> ModulePosition list \<Rightarrow> bool list" where
  "extractBitsFromFlips flipPositions flippableModules =
     (let totalModules = length flippableModules;
          step = findLargePrime totalModules;
          lengthBits = extract_loop 16 totalModules step 0 flipPositions [];
          messageLength = read_bits lengthBits 0 16;
          totalBits = 16 + messageLength * 8 + 16
      in extract_loop totalBits totalModules step 0 flipPositions [])"

definition decodeFromMatrix ::
  "engine \<Rightarrow> bool list list \<Rightarrow> jsstring \<Rightarrow> error + StegoPayload" where
  "decodeFromMatrix encodeText scannedMatrix primary =
     (case encodeText primary H of
        None \<Rightarrow> Inl PrimaryEncodeError
      | Some referenceQR \<Rightarrow>
          let referenceMatrix = qrToModuleMatrix referenceQR;
              qrMatrixStruct = convertToFullQRMatrix referenceQR
          in (case identifyFlippableModules qrMatrixStruct of
                Inl e \<Rightarrow> Inl e
              | Inr flippableModules \<Rightarrow>
                  (case compareMatrices scannedMatrix referenceMatrix flippableModules of
                     Inl e \<Rightarrow> Inl e
                   | Inr flipPositions \<Rightarrow>
                       if length flipPositions = 0
                       then Inr \<lparr>primaryMessage = primary, secondaryMessage = [],
                                 metadata = \<lparr>meta_version = ascii ''1.0'',
                                             meta_flippedModuleCount = 0,
                                             ecLevelUsed = H, capacityUsed = Num 0\<rparr>\<rparr>
                       else let secondaryBits = extractBitsFromFlips flipPositions flippableModules in
                         (case decodeSecondaryMessage secondaryBits of
                            Inl e \<Rightarrow> Inl e
                          | Inr secondary \<Rightarrow>
                              Inr \<lparr>primaryMessage = primary, secondaryMessage = secondary,
                                   metadata =
                                     \<lparr>meta_version = ascii ''1.0'',
                                      meta_flippedModuleCount = length flipPositions,
                                      ecLevelUsed = H,
                                      capacityUsed =
                                        js_mul (js_div (Num (of_nat (length flipPositions)))
                                                  (Num (of_nat (length flippableModules))))
                                          (Num 100)\<rparr>\<rparr>))))"

section \<open>Notions used in the statements\<close>

text \<open>Primality by its definition, to state what \<open>isPrime\<close> decides.\<close>

definition prime_nat :: "nat \<Rightarrow> bool" where
  "prime_nat p = (1 < p \<and> (\<forall>d\<in>{2..<p}. \<not> d dvd p))"


text \<open>
  A string is well formed (\<open>String.prototype.isWellFormed\<close>) when each of its surrogates is
  part of a pair, a lead surrogate followed by a trail surrogate.
\<close>

fun well_formed :: "jsstring \<Rightarrow> bool" where
  "well_formed [] = True"
| "well_formed [c] = (\<not> is_surrogate c)"
| "well_formed (c # d # cs) =
     (if is_lead c \<and> is_trail d then well_formed cs
      else \<not> is_surrogate c \<and> well_formed (d # cs))"

text \<open>The string begins with U+FEFF, the byte order mark.\<close>

definition starts_with_bom :: "jsstring \<Rightarrow> bool" where
  "starts_with_bom s = (case s of [] \<Rightarrow> False | c # cs \<Rightarrow> c = 0xFEFF)"

text \<open>A scalar value: a code point that is not a surrogate.\<close>

definition is_scalar :: "nat \<Rightarrow> bool" where
  "is_scalar cp = (cp < 0x110000 \<and> \<not> (0xD800 \<le> cp \<and> cp \<le> 0xDFFF))"

text \<open>
  The bit capacity of \<open>n\<close> flippable modules at the default safety margin, in exact
  arithmetic: \<open>\<lfloor>\<lfloor>7n/100\<rfloor> / (42/100)\<rfloor>\<close>.
\<close>

definition default_max_bits :: "nat \<Rightarrow> nat" where
  "default_max_bits n = (100 * ((7 * n) div 100)) div 42"

text \<open>One shift of the checksum register: the body of the inner loop of \<open>calculateChecksum\<close>.\<close>

definition crc_step :: "int32 \<Rightarrow> int32" where
  "crc_step c = (if c AND 0x8000 \<noteq> 0 then push_bit 1 c XOR 0x1021 else push_bit 1 c)"

text \<open>The bits \<open>encodeSecondaryMessage\<close> emits for the message bytes \<open>bs\<close>.\<close>

definition frame :: "byte list \<Rightarrow> bool list" where
  "frame bs = push_bits 16 (length bs) @ concat (map (\<lambda>b. push_bits 8 (unat b)) bs)
                @ push_bits 16 (calculateChecksum bs)"

text \<open>\<open>decode_frame(encode_frame(m, max_bits))\<close>, and the same with bit \<open>k\<close> of the frame flipped.\<close>

definition decode_encode :: "jsstring \<Rightarrow> number \<Rightarrow> error + jsstring" where
  "decode_encode m maxBits =
     (case encodeSecondaryMessage m maxBits of
        Inl e \<Rightarrow> Inl e
      | Inr bits \<Rightarrow> decodeSecondaryMessage bits)"

definition decode_tampered :: "jsstring \<Rightarrow> number \<Rightarrow> nat \<Rightarrow> error + jsstring" where
  "decode_tampered m maxBits k =
     (case encodeSecondaryMessage m maxBits of
        Inl e \<Rightarrow> Inl e
      | Inr bits \<Rightarrow> decodeSecondaryMessage (bits[k := \<not> bits ! k]))"

definition is_ChecksumMismatch :: "error + jsstring \<Rightarrow> bool" where
  "is_ChecksumMismatch r = (case r of Inl (ChecksumMismatch e g) \<Rightarrow> True | _ \<Rightarrow> False)"

definition is_fp :: "nat \<Rightarrow> nat \<Rightarrow> nat \<Rightarrow> nat \<Rightarrow> bool" where
  "is_fp sz v x y =
     (isInFinderPattern x y sz \<or> isInTimingPattern x y \<or> isInAlignmentPattern x y v
      \<or> isInFormatInfo x y sz \<or> isInVersionInfo x y sz v)"

definition flippable_cells :: "nat \<Rightarrow> nat \<Rightarrow> (nat \<times> nat) list" where
  "flippable_cells sz v = filter (\<lambda>c. \<not> is_fp sz v (fst c) (snd c)) (cells sz)"

fun positions_from :: "nat \<Rightarrow> (nat \<times> nat) list \<Rightarrow> ModulePosition list" where
  "positions_from n [] = []"
| "positions_from n (c # cs) =
     \<lparr>pos_x = fst c, pos_y = snd c, pos_index = n\<rparr> # positions_from (Suc n) cs"

definition flippable_positions :: "QrCode \<Rightarrow> ModulePosition list" where
  "flippable_positions qr = positions_from 0 (flippable_cells (qr_size qr) (qr_version qr))"

definition grid_ok :: "nat \<Rightarrow> nat \<Rightarrow> QRModule list list \<Rightarrow> bool" where
  "grid_ok sz v ms =
     (length ms = sz \<and> (\<forall>y < sz. length (ms ! y) = sz \<and>
        (\<forall>x < sz. mod_x (ms ! y ! x) = x \<and> mod_y (ms ! y ! x) = y
           \<and> (\<not> is_fp sz v x y \<longrightarrow> mod_type (ms ! y ! x) = DATA_CODEWORD))))"

definition shape :: "nat \<Rightarrow> 'a list list \<Rightarrow> bool" where
  "shape sz ms = (length ms = sz \<and> (\<forall>y < sz. length (ms ! y) = sz))"

definition positions_ok :: "nat \<Rightarrow> nat \<Rightarrow> ModulePosition list \<Rightarrow> bool" where
  "positions_ok sz v ps =
     ((\<forall>k < length ps. pos_x (ps ! k) < sz \<and> pos_y (ps ! k) < sz
          \<and> \<not> is_fp sz v (pos_x (ps ! k)) (pos_y (ps ! k)))
      \<and> (\<forall>i < length ps. \<forall>j < length ps.
            pos_x (ps ! i) = pos_x (ps ! j) \<and> pos_y (ps ! i) = pos_y (ps ! j) \<longrightarrow> i = j))"

definition wf_qr :: "QrCode \<Rightarrow> bool" where
  "wf_qr qr = (1 \<le> qr_version qr \<and> qr_version qr \<le> 40 \<and> qr_size qr = 17 + 4 * qr_version qr)"

definition default_options :: EncodeOptions where
  "default_options = \<lparr>opt_ecLevel = None, opt_safetyMargin = None\<rparr>"

definition options_ecLevel :: "EncodeOptions \<Rightarrow> ECLevel" where
  "options_ecLevel options = (case opt_ecLevel options of None \<Rightarrow> H | Some e \<Rightarrow> e)"

definition options_safetyMargin :: "EncodeOptions \<Rightarrow> number" where
  "options_safetyMargin options =
     (case opt_safetyMargin options of None \<Rightarrow> DEFAULT_SAFETY_MARGIN | Some m \<Rightarrow> m)"

definition is_PayloadTooLarge :: "error + 'a \<Rightarrow> bool" where
  "is_PayloadTooLarge r = (case r of Inl (PayloadTooLarge n m) \<Rightarrow> True | _ \<Rightarrow> False)"

text \<open>
  \<open>DecodeMatrix(modules_of(Encode(primary, secondary).matrix), primary).secondary\<close>:
  encoding with the default options, then decoding the module matrix of the result.
\<close>

definition matrix_roundtrip :: "engine \<Rightarrow> jsstring \<Rightarrow> jsstring \<Rightarrow> error + jsstring" where
  "matrix_roundtrip encodeText primary secondary =
     (case QRStego_encode encodeText primary secondary default_options of
        Inl e \<Rightarrow> Inl e
      | Inr res \<Rightarrow>
          (case decodeFromMatrix encodeText (getModules (res_matrix res)) primary of
             Inl e \<Rightarrow> Inl e
           | Inr payload \<Rightarrow> Inr (secondaryMessage payload)))"

definition sample_qr :: QrCode where
  "sample_qr = \<lparr>qr_size = 25, qr_version = 2, qr_mask = 0, qr_errorCorrectionLevel = H,
                 qr_getModule = (\<lambda>x y. even (x + y)), qr_isFunction = []\<rparr>"

definition sample_engine :: engine where
  "sample_engine text ecLevel = Some sample_qr"

section \<open>Properties\<close>

subsection \<open>The UTF-8 decoder inverts the encoder\<close>

lemma dec_ascii:
  "b \<le> 0x7F \<Longrightarrow> utf8_decoder cp 0 lo hi (b # bs) = b # utf8_decoder 0 0 0x80 0xBF bs"
  by (simp add: utf8_decoder.simps)

lemma dec_lead2:
  "0xC2 \<le> b \<Longrightarrow> b \<le> 0xDF
   \<Longrightarrow> utf8_decoder cp 0 lo hi (b # bs) = utf8_decoder (b mod 0x20) 1 0x80 0xBF bs"
  by (simp add: utf8_decoder.simps)

lemma dec_lead3:
  "0xE0 \<le> b \<Longrightarrow> b \<le> 0xEF
   \<Longrightarrow> utf8_decoder cp 0 lo hi (b # bs)
       = utf8_decoder (b mod 0x10) 2 (if b = 0xE0 then 0xA0 else 0x80)
           (if b = 0xED then 0x9F else 0xBF) bs"
  by (simp add: utf8_decoder.simps)

lemma dec_lead4:
  "0xF0 \<le> b \<Longrightarrow> b \<le> 0xF4
   \<Longrightarrow> utf8_decoder cp 0 lo hi (b # bs)
       = utf8_decoder (b mod 0x08) 3 (if b = 0xF0 then 0x90 else 0x80)
           (if b = 0xF4 then 0x8F else 0xBF) bs"
  by (simp add: utf8_decoder.simps)

lemma dec_last:
  "lo \<le> b \<Longrightarrow> b \<le> hi
   \<Longrightarrow> utf8_decoder cp (Suc 0) lo hi (b # bs)
       = (cp * 0x40 + b mod 0x40) # utf8_decoder 0 0 0x80 0xBF bs"
  by (simp add: utf8_decoder.simps)

lemma dec_cont:
  "lo \<le> b \<Longrightarrow> b \<le> hi
   \<Longrightarrow> utf8_decoder cp (Suc (Suc n)) lo hi (b # bs)
       = utf8_decoder (cp * 0x40 + b mod 0x40) (Suc n) 0x80 0xBF bs"
  by (simp add: utf8_decoder.simps)

lemma utf8_decode_1:
  assumes "cp < 0x80"
  shows "utf8_decoder 0 0 0x80 0xBF (utf8_bytes cp @ rest) = cp # utf8_decoder 0 0 0x80 0xBF rest"
  using assms by (simp add: utf8_bytes_def dec_ascii)

lemma mod_offset: "a < m \<Longrightarrow> (k * m + a) mod m = (a :: nat)"
  by simp

lemma utf8_bytes_2:
  "\<not> cp < 0x80 \<Longrightarrow> cp < 0x800
   \<Longrightarrow> utf8_bytes cp = [0xC0 + cp div 0x40, 0x80 + cp mod 0x40]"
  unfolding utf8_bytes_def by (simp only: if_False if_True)

lemma utf8_decode_2:
  assumes "0x80 \<le> cp" "cp < 0x800"
  shows "utf8_decoder 0 0 0x80 0xBF (utf8_bytes cp @ rest) = cp # utf8_decoder 0 0 0x80 0xBF rest"
proof -
  define a where "a = cp div 0x40"
  define b where "b = cp mod 0x40"
  have n: "\<not> cp < 0x80" using assms(1) by (simp only: not_less)
  have ub: "utf8_bytes cp = [0xC0 + a, 0x80 + b]"
    unfolding a_def b_def using n assms(2) by (rule utf8_bytes_2)
  have cp: "cp = a * 0x40 + b" and b: "b < 0x40" by (simp_all add: a_def b_def)
  have a: "2 \<le> a" "a < 0x20" using assms by (simp_all add: a_def less_mult_imp_div_less)
  have m1: "(0xC0 + a) mod 0x20 = a" using mod_offset [of a "0x20" 6] a by simp
  have m2: "(0x80 + b) mod 0x40 = b" using mod_offset [of b "0x40" 2] b by simp
  have "utf8_decoder 0 0 0x80 0xBF ((0xC0 + a) # (0x80 + b) # rest)
        = utf8_decoder ((0xC0 + a) mod 0x20) 1 0x80 0xBF ((0x80 + b) # rest)"
    using a by (intro dec_lead2) simp_all
  also have "\<dots> = (a * 0x40 + (0x80 + b) mod 0x40) # utf8_decoder 0 0 0x80 0xBF rest"
    unfolding m1 One_nat_def using b by (intro dec_last) simp_all
  finally show ?thesis unfolding ub m2 cp [symmetric] by simp
qed

lemma utf8_bytes_3:
  "\<not> cp < 0x80 \<Longrightarrow> \<not> cp < 0x800 \<Longrightarrow> cp < 0x10000
   \<Longrightarrow> utf8_bytes cp = [0xE0 + cp div 0x1000, 0x80 + cp div 0x40 mod 0x40, 0x80 + cp mod 0x40]"
  unfolding utf8_bytes_def by (simp only: if_False if_True)

lemma utf8_bytes_4:
  "\<not> cp < 0x80 \<Longrightarrow> \<not> cp < 0x800 \<Longrightarrow> \<not> cp < 0x10000
   \<Longrightarrow> utf8_bytes cp = [0xF0 + cp div 0x40000, 0x80 + cp div 0x1000 mod 0x40,
                          0x80 + cp div 0x40 mod 0x40, 0x80 + cp mod 0x40]"
  unfolding utf8_bytes_def by (simp only: if_False if_True)

lemma utf8_decode_3:
  assumes "0x800 \<le> cp" "cp < 0x10000" "\<not> (0xD800 \<le> cp \<and> cp \<le> 0xDFFF)"
  shows "utf8_decoder 0 0 0x80 0xBF (utf8_bytes cp @ rest) = cp # utf8_decoder 0 0 0x80 0xBF rest"
proof -
  define a where "a = cp div 0x1000"
  define b where "b = cp div 0x40 mod 0x40"
  define c where "c = cp mod 0x40"
  have ub: "utf8_bytes cp = [0xE0 + a, 0x80 + b, 0x80 + c]"
    unfolding a_def b_def c_def using assms(1,2) by (intro utf8_bytes_3) simp_all
  have d: "cp div 0x40 = a * 0x40 + b"
    unfolding a_def b_def using div_mult_mod_eq [of "cp div 0x40" "0x40"]
    by (simp add: div_mult2_eq [symmetric])
  have cp: "cp = (a * 0x40 + b) * 0x40 + c"
    unfolding d [symmetric] c_def by simp
  have b: "b < 0x40" and c: "c < 0x40" by (simp_all add: b_def c_def)
  have cpx: "cp = a * 0x1000 + b * 0x40 + c" by (subst cp) (simp add: algebra_simps)
  have a: "a < 0x10" using assms(2) cpx by linarith
  have lo: "a = 0 \<Longrightarrow> 0x20 \<le> b" using assms(1) cpx c by linarith
  have hi: "a = 0xD \<Longrightarrow> b < 0x20" using assms(3) cpx c b by linarith
  have m1: "(0xE0 + a) mod 0x10 = a" using mod_offset [of a "0x10" 14] a by simp
  have m2: "(0x80 + b) mod 0x40 = b" using mod_offset [of b "0x40" 2] b by simp
  have m3: "(0x80 + c) mod 0x40 = c" using mod_offset [of c "0x40" 2] c by simp
  have "utf8_decoder 0 0 0x80 0xBF ((0xE0 + a) # (0x80 + b) # (0x80 + c) # rest)
        = utf8_decoder ((0xE0 + a) mod 0x10) 2 (if 0xE0 + a = 0xE0 then 0xA0 else 0x80)
            (if 0xE0 + a = 0xED then 0x9F else 0xBF) ((0x80 + b) # (0x80 + c) # rest)"
    using a by (intro dec_lead3) simp_all
  also have "\<dots> = utf8_decoder (a * 0x40 + (0x80 + b) mod 0x40) (Suc 0) 0x80 0xBF
                        ((0x80 + c) # rest)"
    unfolding m1 numeral_2_eq_2 using b lo hi by (intro dec_cont) auto
  also have "\<dots> = ((a * 0x40 + b) * 0x40 + (0x80 + c) mod 0x40)
                        # utf8_decoder 0 0 0x80 0xBF rest"
    unfolding m2 using c by (intro dec_last) simp_all
  finally show ?thesis unfolding ub m3 cp [symmetric] by simp
qed

lemma utf8_decode_4:
  assumes "0x10000 \<le> cp" "cp < 0x110000"
  shows "utf8_decoder 0 0 0x80 0xBF (utf8_bytes cp @ rest) = cp # utf8_decoder 0 0 0x80 0xBF rest"
proof -
  define a where "a = cp div 0x40000"
  define b where "b = cp div 0x1000 mod 0x40"
  define c where "c = cp div 0x40 mod 0x40"
  define d where "d = cp mod 0x40"
  have ub: "utf8_bytes cp = [0xF0 + a, 0x80 + b, 0x80 + c, 0x80 + d]"
    unfolding a_def b_def c_def d_def using assms(1) by (intro utf8_bytes_4) simp_all
  have e1: "cp div 0x1000 = a * 0x40 + b"
    unfolding a_def b_def using div_mult_mod_eq [of "cp div 0x1000" "0x40"]
    by (simp add: div_mult2_eq [symmetric])
  have e2: "cp div 0x40 = (a * 0x40 + b) * 0x40 + c"
    unfolding e1 [symmetric] c_def using div_mult_mod_eq [of "cp div 0x40" "0x40"]
    by (simp add: div_mult2_eq [symmetric])
  have cp: "cp = ((a * 0x40 + b) * 0x40 + c) * 0x40 + d"
    unfolding e2 [symmetric] d_def by simp
  have b: "b < 0x40" and c: "c < 0x40" and d: "d < 0x40" by (simp_all add: b_def c_def d_def)
  have cpx: "cp = a * 0x40000 + b * 0x1000 + c * 0x40 + d"
    by (subst cp) (simp add: algebra_simps)
  have a: "a < 5" using assms(2) cpx by linarith
  have lo: "a = 0 \<Longrightarrow> 0x10 \<le> b" using assms(1) cpx c d by linarith
  have hi: "a = 4 \<Longrightarrow> b < 0x10" using assms(2) cpx by linarith
  have m1: "(0xF0 + a) mod 0x08 = a" using mod_offset [of a "0x08" 30] a by simp
  have m2: "(0x80 + b) mod 0x40 = b" using mod_offset [of b "0x40" 2] b by simp
  have m3: "(0x80 + c) mod 0x40 = c" using mod_offset [of c "0x40" 2] c by simp
  have m4: "(0x80 + d) mod 0x40 = d" using mod_offset [of d "0x40" 2] d by simp
  have "utf8_decoder 0 0 0x80 0xBF ((0xF0 + a) # (0x80 + b) # (0x80 + c) # (0x80 + d) # rest)
        = utf8_decoder ((0xF0 + a) mod 0x08) 3 (if 0xF0 + a = 0xF0 then 0x90 else 0x80)
            (if 0xF0 + a = 0xF4 then 0x8F else 0xBF) ((0x80 + b) # (0x80 + c) # (0x80 + d) # rest)"
    using a by (intro dec_lead4) simp_all
  also have "\<dots> = utf8_decoder (a * 0x40 + (0x80 + b) mod 0x40) (Suc (Suc 0)) 0x80 0xBF
                        ((0x80 + c) # (0x80 + d) # rest)"
    unfolding m1 numeral_3_eq_3 using b lo hi by (intro dec_cont) auto
  also have "\<dots> = utf8_decoder ((a * 0x40 + b) * 0x40 + (0x80 + c) mod 0x40) (Suc 0) 0x80 0xBF
                        ((0x80 + d) # rest)"
    unfolding m2 using c by (intro dec_cont) simp_all
  also have "\<dots> = (((a * 0x40 + b) * 0x40 + c) * 0x40 + (0x80 + d) mod 0x40)
                        # utf8_decoder 0 0 0x80 0xBF rest"
    unfolding m3 using d by (intro dec_last) simp_all
  finally show ?thesis unfolding ub m4 cp [symmetric] by simp
qed

lemma utf8_decode_scalar:
  assumes "is_scalar cp"
  shows "utf8_decoder 0 0 0x80 0xBF (utf8_bytes cp @ rest) = cp # utf8_decoder 0 0 0x80 0xBF rest"
proof -
  consider "cp < 0x80" | "0x80 \<le> cp" "cp < 0x800" | "0x800 \<le> cp" "cp < 0x10000"
    | "0x10000 \<le> cp" by linarith
  then show ?thesis
  proof cases
    case 1 then show ?thesis by (rule utf8_decode_1)
  next
    case 2 then show ?thesis by (rule utf8_decode_2)
  next
    case 3 then show ?thesis using assms by (intro utf8_decode_3) (simp_all add: is_scalar_def)
  next
    case 4 then show ?thesis using assms by (intro utf8_decode_4) (simp_all add: is_scalar_def)
  qed
qed

lemma utf8_decode_encode:
  "list_all is_scalar cps
   \<Longrightarrow> utf8_decoder 0 0 0x80 0xBF (concat (map utf8_bytes cps)) = cps"
  by (induction cps) (simp_all add: utf8_decoder.simps utf8_decode_scalar)

lemma utf8_bytes_range: "cp < 0x110000 \<Longrightarrow> b \<in> set (utf8_bytes cp) \<Longrightarrow> b < 256"
proof -
  assume a: "cp < 0x110000" "b \<in> set (utf8_bytes cp)"
  have m: "x mod 0x40 < 0x40" for x :: nat by simp
  have d1: "cp < 0x800 \<Longrightarrow> cp div 0x40 < 0x20" by (simp add: less_mult_imp_div_less)
  have d2: "cp < 0x10000 \<Longrightarrow> cp div 0x1000 < 0x10" by (simp add: less_mult_imp_div_less)
  have d3: "cp div 0x40000 < 5" using a(1) by (simp add: less_mult_imp_div_less)
  from a(2) m [of cp] m [of "cp div 0x40"] m [of "cp div 0x1000"] d1 d2 d3 show ?thesis
    unfolding utf8_bytes_def by (auto split: if_splits)
qed

subsection \<open>Text encoding followed by decoding\<close>

lemma unat_16_less: "unat (c :: 16 word) < 0x10000"
  using unsigned_less [of c, where 'a = nat] by simp

lemma of_nat_unat16: "of_nat (unat c) = (c :: 16 word)"
  using unat_16_less [of c] by (simp add: word_unat_eq_iff unat_of_nat)

lemma unat_of_nat16: "x < 0x10000 \<Longrightarrow> unat (of_nat x :: 16 word) = x"
  by (simp add: unat_of_nat)

lemma unat_of_nat8: "x < 256 \<Longrightarrow> unat (of_nat x :: 8 word) = x"
  by (simp add: unat_of_nat)

lemma lead_surrogate: "is_lead c \<Longrightarrow> is_surrogate c"
  by (simp add: is_lead_def is_surrogate_def)

lemma scalar_unit: "\<not> is_surrogate c \<Longrightarrow> is_scalar (unat c)"
  using unat_16_less [of c] by (simp add: is_surrogate_def is_scalar_def)

lemma scalar_pair:
  "is_lead c \<Longrightarrow> is_trail d
   \<Longrightarrow> is_scalar (0x10000 + (unat c - 0xD800) * 0x400 + (unat d - 0xDC00))"
  unfolding is_lead_def is_trail_def is_scalar_def by linarith

lemma scalar_FFFD: "is_scalar 0xFFFD"
  by (simp add: is_scalar_def)

lemma scalar_values_scalar: "list_all is_scalar (scalar_values s)"
  by (induction s rule: scalar_values.induct)
    (simp_all add: scalar_unit scalar_pair scalar_FFFD)

lemma utf16_units_unit: "utf16_units (unat c) = [c]"
  using unat_16_less [of c] by (simp add: utf16_units_def of_nat_unat16)

lemma utf16_units_pair:
  assumes "is_lead c" "is_trail d"
  shows "utf16_units (0x10000 + (unat c - 0xD800) * 0x400 + (unat d - 0xDC00)) = [c, d]"
proof -
  define x where "x = unat c - 0xD800"
  define y where "y = unat d - 0xDC00"
  have c: "unat c = 0xD800 + x" using assms(1) by (simp add: x_def is_lead_def)
  have d: "unat d = 0xDC00 + y" and y: "y < 0x400"
    using assms(2) unfolding y_def is_trail_def by linarith+
  have q: "(x * 0x400 + y) div 0x400 = x" "(x * 0x400 + y) mod 0x400 = y" using y by simp_all
  have "utf16_units (0x10000 + x * 0x400 + y) = [of_nat (0xD800 + x), of_nat (0xDC00 + y)]"
    using q by (simp add: utf16_units_def add.assoc)
  also have "\<dots> = [c, d]" unfolding c [symmetric] d [symmetric] by (simp add: of_nat_unat16)
  finally show ?thesis by (simp only: x_def y_def)
qed

lemma utf16_roundtrip: "well_formed s \<Longrightarrow> concat (map utf16_units (scalar_values s)) = s"
proof (induction s rule: scalar_values.induct)
  case 1
  then show ?case by simp
next
  case (2 c)
  then show ?case by (simp add: utf16_units_unit)
next
  case (3 c d cs)
  show ?case
  proof (cases "is_lead c \<and> is_trail d")
    case True
    with 3 show ?thesis by (simp add: utf16_units_pair)
  next
    case False
    with 3 show ?thesis by (auto simp: utf16_units_unit)
  qed
qed

lemma unat_of_nat_bytes:
  "\<forall>b \<in> set bs. b < 256 \<Longrightarrow> map unat (map of_nat bs :: byte list) = bs"
  by (induction bs) (simp_all add: unat_of_nat8)

lemma encoded_bytes_range:
  "list_all is_scalar cps \<Longrightarrow> \<forall>b \<in> set (concat (map utf8_bytes cps)). b < 256"
  by (induction cps) (auto simp: is_scalar_def dest: utf8_bytes_range)

lemma decode_encode_scalars:
  "TextDecoder_decode (TextEncoder_encode s)
   = concat (map utf16_units (strip_bom (scalar_values s)))"
  unfolding TextDecoder_decode_def TextEncoder_encode_def
  by (simp only: unat_of_nat_bytes [OF encoded_bytes_range [OF scalar_values_scalar]]
      utf8_decode_encode [OF scalar_values_scalar])

lemma scalar_values_hd:
  "\<not> starts_with_bom s \<Longrightarrow> strip_bom (scalar_values s) = scalar_values s"
proof (cases s rule: scalar_values.cases)
  case 1
  then show ?thesis by (simp add: strip_bom_def)
next
  case (2 c)
  assume "\<not> starts_with_bom s"
  with 2 have "c \<noteq> 0xFEFF" by (simp add: starts_with_bom_def)
  then have "unat c \<noteq> 0xFEFF"
    by (simp add: word_unat_eq_iff)
  with 2 show ?thesis by (simp add: strip_bom_def)
next
  case (3 c d cs)
  assume "\<not> starts_with_bom s"
  with 3 have "c \<noteq> 0xFEFF" by (simp add: starts_with_bom_def)
  then have "unat c \<noteq> 0xFEFF"
    by (simp add: word_unat_eq_iff)
  with 3 show ?thesis by (simp add: strip_bom_def is_lead_def)
qed

lemma bom_not_surrogate: "\<not> is_surrogate (0xFEFF :: 16 word)" "\<not> is_lead (0xFEFF :: 16 word)"
  by (simp_all add: is_surrogate_def is_lead_def)

lemma scalar_values_bom:
  "scalar_values (0xFEFF # s) = 0xFEFF # scalar_values s"
  by (cases s) (simp_all add: bom_not_surrogate)

lemma well_formed_bom: "well_formed (0xFEFF # s) = well_formed s"
  by (cases s) (simp_all add: bom_not_surrogate)

lemma text_roundtrip:
  assumes "well_formed s"
  shows "TextDecoder_decode (TextEncoder_encode s) = (if starts_with_bom s then tl s else s)"
proof (cases "starts_with_bom s")
  case True
  then obtain t where s: "s = 0xFEFF # t" by (auto simp: starts_with_bom_def split: list.splits)
  with assms have "well_formed t" by (simp add: well_formed_bom)
  then show ?thesis
    using True by (simp add: decode_encode_scalars s scalar_values_bom strip_bom_def utf16_roundtrip)
next
  case False
  then show ?thesis using assms by (simp add: decode_encode_scalars scalar_values_hd utf16_roundtrip)
qed

lemma well_formed_units:
  "is_scalar cp \<Longrightarrow> well_formed (utf16_units cp @ t) = well_formed t"
proof -
  assume a: "is_scalar cp"
  show ?thesis
  proof (cases "cp < 0x10000")
    case True
    then have u: "unat (of_nat cp :: 16 word) = cp" by (rule unat_of_nat16)
    with a have n: "\<not> is_surrogate (of_nat cp :: 16 word)" "\<not> is_lead (of_nat cp :: 16 word)"
      unfolding is_surrogate_def is_lead_def is_scalar_def by linarith+
    from True n show ?thesis by (cases t) (simp_all add: utf16_units_def)
  next
    case False
    define x where "x = (cp - 0x10000) div 0x400"
    define y where "y = (cp - 0x10000) mod 0x400"
    have "cp - 0x10000 < 0x400 * 0x400" using a unfolding is_scalar_def by linarith
    then have x: "x < 0x400" unfolding x_def by (simp add: less_mult_imp_div_less)
    have y: "y < 0x400" by (simp add: y_def)
    have "unat (of_nat (0xD800 + x) :: 16 word) = 0xD800 + x" using x by (intro unat_of_nat16) simp
    then have l: "is_lead (of_nat (0xD800 + x))" using x by (simp add: is_lead_def)
    have "unat (of_nat (0xDC00 + y) :: 16 word) = 0xDC00 + y" using y by (intro unat_of_nat16) simp
    then have t: "is_trail (of_nat (0xDC00 + y))" using y by (simp add: is_trail_def)
    from False l t show ?thesis by (simp add: utf16_units_def x_def y_def)
  qed
qed

lemma well_formed_concat_units:
  "list_all is_scalar cps \<Longrightarrow> well_formed (concat (map utf16_units cps))"
  by (induction cps) (simp_all add: well_formed_units)

lemma strip_bom_scalar: "list_all is_scalar cps \<Longrightarrow> list_all is_scalar (strip_bom cps)"
  by (cases cps) (simp_all add: strip_bom_def)

lemma text_roundtrip_iff:
  "(TextDecoder_decode (TextEncoder_encode s) = s) = (well_formed s \<and> \<not> starts_with_bom s)"
proof
  assume e: "TextDecoder_decode (TextEncoder_encode s) = s"
  have "well_formed (TextDecoder_decode (TextEncoder_encode s))"
    unfolding decode_encode_scalars
    by (intro well_formed_concat_units strip_bom_scalar scalar_values_scalar)
  with e have w: "well_formed s" by simp
  have "\<not> starts_with_bom s"
  proof
    assume b: "starts_with_bom s"
    with w e have "tl s = s" by (simp add: text_roundtrip)
    then have "length (tl s) = length s" by simp
    with b show False by (cases s) (simp_all add: starts_with_bom_def)
  qed
  with w show "well_formed s \<and> \<not> starts_with_bom s" by simp
next
  assume "well_formed s \<and> \<not> starts_with_bom s"
  then show "TextDecoder_decode (TextEncoder_encode s) = s" by (simp add: text_roundtrip)
qed

lemma utf8_bytes_not_Nil: "utf8_bytes cp \<noteq> []"
  by (simp add: utf8_bytes_def)

lemma scalar_values_Nil: "(scalar_values s = []) = (s = [])"
  by (cases s rule: scalar_values.cases) simp_all

lemma TextEncoder_Nil [simp]: "(TextEncoder_encode s = []) = (s = [])"
  by (cases s rule: scalar_values.cases) (simp_all add: TextEncoder_encode_def utf8_bytes_not_Nil)

text \<open>A string of ASCII characters is encoded unit by unit.\<close>

lemma scalar_values_ascii:
  "\<forall>c \<in> set s. unat c < 0x80 \<Longrightarrow> scalar_values s = map unat s"
  by (induction s rule: scalar_values.induct) (simp_all add: is_surrogate_def is_lead_def)

lemma TextEncoder_ascii_units:
  assumes "\<forall>c \<in> set s. unat c < 0x80"
  shows "TextEncoder_encode s = map (\<lambda>c. of_nat (unat c)) s"
proof -
  have "concat (map utf8_bytes (map unat s)) = map unat s"
    using assms by (induction s) (simp_all add: utf8_bytes_def)
  then show ?thesis
    by (simp add: TextEncoder_encode_def scalar_values_ascii [OF assms] comp_def)
qed

subsection \<open>Rounding to binary64\<close>

lemma bit_length_le: "n < 2 ^ k \<Longrightarrow> bit_length n \<le> k"
proof (induction k arbitrary: n)
  case 0
  then show ?case by (simp add: bit_length.simps)
next
  case (Suc k)
  then have "n div 2 < 2 ^ k" by (simp add: less_mult_imp_div_less)
  then have "bit_length (n div 2) \<le> k" by (rule Suc.IH)
  then show ?case by (subst bit_length.simps) simp
qed

lemma ilog2_le:
  assumes "0 < x" "x < 2 ^ 16"
  shows "ilog2 x \<le> 15"
proof (cases "1 \<le> x")
  case True
  have "\<lfloor>x\<rfloor> < 65536" using assms(2) by (simp add: floor_less_iff)
  then have "nat \<lfloor>x\<rfloor> < 65536" by linarith
  then have "nat \<lfloor>x\<rfloor> < 2 ^ 16" by simp
  then have "bit_length (nat \<lfloor>x\<rfloor>) \<le> 16" by (rule bit_length_le)
  with True show ?thesis by (simp add: ilog2_def)
next
  case False
  then show ?thesis by (simp add: ilog2_def)
qed

lemma ulp_form:
  assumes "x \<noteq> 0" "\<bar>x\<bar> < 2 ^ 16"
  obtains j where "37 \<le> j" "pow2 (max (ilog2 \<bar>x\<bar>) (- 1022) - 52) = 1 / 2 ^ j"
proof -
  define e where "e = max (ilog2 \<bar>x\<bar>) (- 1022)"
  have "ilog2 \<bar>x\<bar> \<le> 15" using assms by (intro ilog2_le) simp_all
  then have e: "e \<le> 15" by (simp add: e_def)
  then have "pow2 (e - 52) = 1 / 2 ^ nat (52 - e)" by (simp add: pow2_def)
  moreover have "37 \<le> nat (52 - e)" using e by simp
  ultimately show ?thesis using that unfolding e_def by blast
qed

lemma round_even_int [simp]: "round_even (of_int w) = w"
  by (simp add: round_even_def)

lemma round_even_bounds: "of_int (round_even y) \<le> y + 1 / 2" "y - 1 / 2 \<le> of_int (round_even y)"
proof -
  define f where "f = \<lfloor>y\<rfloor>"
  define d where "d = y - of_int f"
  have f: "of_int f \<le> y" "y < of_int f + 1" unfolding f_def by linarith+
  have r: "round_even y
      = (if d < 1 / 2 then f else if 1 / 2 < d then f + 1 else if even f then f else f + 1)"
    by (simp add: round_even_def Let_def f_def d_def)
  consider "d < 1 / 2" | "1 / 2 < d" | "d = 1 / 2" by linarith
  then have "of_int (round_even y) \<le> y + 1 / 2 \<and> y - 1 / 2 \<le> of_int (round_even y)"
  proof cases
    case 1
    then have "round_even y = f" by (simp add: r)
    with 1 f show ?thesis unfolding d_def by simp
  next
    case 2
    then have "round_even y = f + 1" by (simp add: r)
    with 2 f show ?thesis unfolding d_def by simp
  next
    case 3
    then have "round_even y = f \<or> round_even y = f + 1" by (simp add: r)
    with 3 f show ?thesis unfolding d_def by auto
  qed
  then show "of_int (round_even y) \<le> y + 1 / 2" "y - 1 / 2 \<le> of_int (round_even y)"
    by simp_all
qed

lemma pow2_1024: "(2 :: rat) ^ 16 \<le> pow2 1024"
proof -
  have "(2 :: rat) ^ 16 \<le> 2 ^ 1024" by (rule power_increasing) simp_all
  then show ?thesis by (simp only: pow2_def nat_numeral if_True zero_le_numeral)
qed

lemma to_double_exact:
  assumes "\<bar>x\<bar> < 2 ^ 16" "x * 2 ^ 37 = of_int z"
  shows "to_double x = Num x"
proof (cases "x = 0")
  case True
  then show ?thesis by (simp add: to_double_def)
next
  case False
  from ulp_form [OF False assms(1)] obtain j where
    j: "37 \<le> j" "pow2 (max (ilog2 \<bar>x\<bar>) (- 1022) - 52) = 1 / 2 ^ j" by blast
  have "(2 :: rat) ^ j = 2 ^ (37 + (j - 37))" using j(1) by simp
  then have "(2 :: rat) ^ j = 2 ^ 37 * 2 ^ (j - 37)" by (simp only: power_add)
  then have "x * 2 ^ j = x * 2 ^ 37 * 2 ^ (j - 37)" by (simp only: mult.assoc)
  also have "\<dots> = of_int (z * 2 ^ (j - 37))" using assms(2) by simp
  finally have y: "x / (1 / 2 ^ j) = of_int (z * 2 ^ (j - 37))" by simp
  have r: "of_int (round_even (x / (1 / 2 ^ j))) * (1 / 2 ^ j) = x"
    unfolding y round_even_int using y by (simp add: field_simps)
  have "\<not> pow2 1024 \<le> \<bar>x\<bar>" using assms(1) pow2_1024 by linarith
  then show ?thesis
    using False by (simp only: to_double_def Let_def j(2) r if_False)
qed

lemma to_double_int:
  assumes "\<bar>k\<bar> < 2 ^ 16"
  shows "to_double (of_int k) = Num (of_int k)"
proof -
  have "\<bar>k\<bar> < 65536" using assms by simp
  then have "(of_int \<bar>k\<bar> :: rat) < of_int 65536" by (simp only: of_int_less_iff)
  then have "\<bar>of_int k :: rat\<bar> < 2 ^ 16" by simp
  moreover have "(of_int k :: rat) * 2 ^ 37 = of_int (k * 2 ^ 37)" by simp
  ultimately show ?thesis by (rule to_double_exact)
qed

lemma to_double_floor:
  assumes "0 \<le> m" "of_int m \<le> x" "x \<le> of_int m + 1 - 1 / 2 ^ 37" "x < 2 ^ 16"
  shows "js_floor (to_double x) = Num (of_int m)"
proof (cases "x = 0")
  case True
  with assms(1,2) have "m = 0" by simp
  with True show ?thesis by (simp add: to_double_def js_floor_def)
next
  case False
  with assms(1,2) have pos: "0 < x" by linarith
  then have ax: "\<bar>x\<bar> = x" by simp
  from ulp_form [OF False] assms(4) ax obtain j where
    j: "37 \<le> j" "pow2 (max (ilog2 \<bar>x\<bar>) (- 1022) - 52) = 1 / 2 ^ j" by auto
  define N :: rat where "N = 2 ^ j"
  define q where "q = round_even (x / (1 / 2 ^ j))"
  have N37: "2 ^ 37 \<le> N" unfolding N_def using j(1) by (intro power_increasing) simp_all
  have Npos: "0 < N" by (simp add: N_def)
  have y: "x / (1 / 2 ^ j) = x * N" by (simp add: N_def)
  have qb: "of_int q \<le> x * N + 1 / 2" "x * N - 1 / 2 \<le> of_int q"
    unfolding q_def y using round_even_bounds [of "x * N"] by simp_all
  have mN: "of_int m * N = of_int (m * 2 ^ j)" "(of_int m + 1) * N = of_int ((m + 1) * 2 ^ j)"
    by (simp_all add: N_def)
  have "of_int m * N \<le> x * N" using assms(2) Npos by simp
  with qb(2) have "of_int (m * 2 ^ j) - 1 / 2 \<le> (of_int q :: rat)" unfolding mN [symmetric] by linarith
  then have "of_int (m * 2 ^ j) < (of_int q :: rat) + 1" by linarith
  then have "(of_int (m * 2 ^ j) :: rat) < of_int (q + 1)" by simp
  then have "m * 2 ^ j < q + 1" by (simp only: of_int_less_iff)
  then have lo: "m * 2 ^ j \<le> q" by simp
  have "1 \<le> N / 2 ^ 37" using N37 by simp
  have "x * N \<le> (of_int m + 1 - 1 / 2 ^ 37) * N" using assms(3) Npos by simp
  also have "\<dots> = (of_int m + 1) * N - N / 2 ^ 37" by (simp add: algebra_simps)
  also have "\<dots> \<le> (of_int m + 1) * N - 1" using \<open>1 \<le> N / 2 ^ 37\<close> by linarith
  finally have "of_int q < (of_int m + 1) * N" using qb(1) by linarith
  then have "(of_int q :: rat) < of_int ((m + 1) * 2 ^ j)" unfolding mN .
  then have hi: "q < (m + 1) * 2 ^ j" by (simp only: of_int_less_iff)
  define r :: rat where "r = of_int q * (1 / 2 ^ j)"
  have rN: "r * N = of_int q" by (simp add: r_def N_def)
  have r1: "of_int m \<le> r"
  proof -
    have "of_int m * N \<le> r * N" unfolding rN mN using lo by (simp only: of_int_le_iff)
    then show ?thesis using Npos by simp
  qed
  have r2: "r < of_int m + 1"
  proof -
    have "r * N < (of_int m + 1) * N" unfolding rN mN using hi by (simp only: of_int_less_iff)
    then show ?thesis using Npos by simp
  qed
  have fl: "\<lfloor>r\<rfloor> = m" using r1 r2 by (simp add: floor_unique)
  have "of_int m + 1 \<le> (2 :: rat) ^ 16"
  proof -
    have "(of_int m :: rat) < 2 ^ 16" using assms(2,4) by linarith
    then have "m < 65536" by simp
    then have "m + 1 \<le> 65536" by simp
    then have "(of_int (m + 1) :: rat) \<le> of_int 65536" by (simp only: of_int_le_iff)
    then show ?thesis by simp
  qed
  with r1 r2 assms(1) have "\<bar>r\<bar> < 2 ^ 16" by simp
  then have "\<not> pow2 1024 \<le> \<bar>r\<bar>" using pow2_1024 by linarith
  then have "to_double x = Num r"
    using False by (simp only: to_double_def Let_def j(2) r_def q_def if_False)
  then show ?thesis by (simp add: js_floor_def fl)
qed

subsection \<open>The default capacity\<close>

lemma bit_length_numeral [simp]:
  "bit_length 0 = 0"
  "bit_length (Suc 0) = Suc 0"
  "bit_length (numeral k) = Suc (bit_length (numeral k div 2))"
  by (subst bit_length.simps, simp)+

lemma floor_rat_numeral [simp]:
  "\<lfloor>(numeral a / numeral b :: rat)\<rfloor> = numeral a div numeral b"
  using floor_divide_of_int_eq [of "numeral a" "numeral b", where 'a = rat] by simp

lemma ceiling_rat_numeral [simp]:
  "\<lceil>(numeral a / numeral b :: rat)\<rceil> = - (- numeral a div numeral b)"
  using floor_divide_of_int_eq [of "- numeral a" "numeral b", where 'a = rat]
  by (simp add: ceiling_def)

lemma BIT_DENSITY_value: "BIT_DENSITY = Num (7566047373982433 / 18014398509481984)"
  by (simp add: BIT_DENSITY_def to_double_def ilog2_def pow2_def round_even_def Let_def)

lemma DEFAULT_SAFETY_MARGIN_value:
  "DEFAULT_SAFETY_MARGIN = Num (1261007895663739 / 18014398509481984)"
  by (simp add: DEFAULT_SAFETY_MARGIN_def to_double_def ilog2_def pow2_def round_even_def Let_def)

lemma margin_3_value: "to_double (3 / 100) = Num (1080863910568919 / 36028797018963968)"
  by (simp add: to_double_def ilog2_def pow2_def round_even_def Let_def)

lemma targetFlips_default:
  assumes "n \<le> 31329"
  shows "js_floor (js_mul (Num (of_nat n)) DEFAULT_SAFETY_MARGIN)
         = Num (of_int (int ((7 * n) div 100)))"
proof -
  define m where "m = int ((7 * n) div 100)"
  define x :: rat where "x = of_nat n * (1261007895663739 / 18014398509481984)"
  have "7 * n = (7 * n) div 100 * 100 + (7 * n) mod 100" by (simp only: div_mult_mod_eq)
  moreover have "(7 * n) mod 100 < 100" by simp
  ultimately have "100 * m \<le> 7 * int n" "7 * int n \<le> 100 * m + 99"
    unfolding m_def by linarith+
  then have "(of_int (100 * m) :: rat) \<le> of_int (7 * int n)"
    "(of_int (7 * int n) :: rat) \<le> of_int (100 * m + 99)"
    by (simp_all only: of_int_le_iff)
  then have b: "100 * (of_int m :: rat) \<le> 7 * of_nat n" "7 * (of_nat n :: rat) \<le> 100 * of_int m + 99"
    by simp_all
  have n: "(of_nat n :: rat) \<le> 31329" using assms by simp
  have n0: "0 \<le> (of_nat n :: rat)" by simp
  have 1: "0 \<le> m" by (simp add: m_def)
  have 2: "of_int m \<le> x" unfolding x_def using b n0 by linarith
  have 3: "x \<le> of_int m + 1 - 1 / 2 ^ 37" unfolding x_def using b n n0 by simp
  have 4: "x < 2 ^ 16" unfolding x_def using n n0 by simp
  have "js_mul (Num (of_nat n)) DEFAULT_SAFETY_MARGIN = to_double x"
    by (simp add: js_mul_def DEFAULT_SAFETY_MARGIN_value x_def)
  then show ?thesis using to_double_floor [OF 1 2 3 4] by (simp add: m_def)
qed

lemma totalBits_default:
  assumes "t \<le> 2193"
  shows "js_floor (js_div (Num (of_nat t)) BIT_DENSITY) = Num (of_int (int ((100 * t) div 42)))"
proof -
  define m where "m = int ((100 * t) div 42)"
  define x :: rat where "x = of_nat t * (18014398509481984 / 7566047373982433)"
  have "100 * t = (100 * t) div 42 * 42 + (100 * t) mod 42" by (simp only: div_mult_mod_eq)
  moreover have "(100 * t) mod 42 < 42" by simp
  ultimately have "42 * m \<le> 100 * int t" "100 * int t \<le> 42 * m + 41"
    unfolding m_def by linarith+
  then have "(of_int (42 * m) :: rat) \<le> of_int (100 * int t)"
    "(of_int (100 * int t) :: rat) \<le> of_int (42 * m + 41)"
    by (simp_all only: of_int_le_iff)
  then have b: "42 * (of_int m :: rat) \<le> 100 * of_nat t" "100 * (of_nat t :: rat) \<le> 42 * of_int m + 41"
    by simp_all
  have n: "(of_nat t :: rat) \<le> 2193" using assms by simp
  have n0: "0 \<le> (of_nat t :: rat)" by simp
  have 1: "0 \<le> m" by (simp add: m_def)
  have 2: "of_int m \<le> x" unfolding x_def using b n0 by linarith
  have 3: "x \<le> of_int m + 1 - 1 / 2 ^ 37" unfolding x_def using b n n0 by simp
  have 4: "x < 2 ^ 16" unfolding x_def using n n0 by simp
  have "js_div (Num (of_nat t)) BIT_DENSITY = to_double x"
    by (simp add: js_div_def BIT_DENSITY_value x_def)
  then show ?thesis using to_double_floor [OF 1 2 3 4] by (simp add: m_def)
qed

lemma calculateMaxCapacity_default:
  assumes "length ps \<le> 31329"
  shows "calculateMaxCapacity ps ecLevel DEFAULT_SAFETY_MARGIN
         = Num (of_nat (default_max_bits (length ps)))"
proof -
  have "(7 * length ps) div 100 \<le> 2193" using assms by simp
  from totalBits_default [OF this] targetFlips_default [OF assms]
  show ?thesis
    by (simp add: calculateMaxCapacity_def Let_def js_max_def js_le_def default_max_bits_def)
qed

lemma default_max_bits_le: "default_max_bits n \<le> n"
proof -
  have "100 * ((7 * n) div 100) \<le> 7 * n" by simp
  then have "(100 * ((7 * n) div 100)) div 42 \<le> (7 * n) div 42" by (rule div_le_mono)
  also have "\<dots> \<le> n" by linarith
  finally show ?thesis by (simp only: default_max_bits_def)
qed

lemma default_max_bits_pos:
  assumes "15 \<le> n"
  shows "0 < default_max_bits n"
proof -
  have "1 \<le> (7 * n) div 100" using assms by linarith
  then have "42 \<le> 100 * ((7 * n) div 100)" by simp
  then have "1 \<le> (100 * ((7 * n) div 100)) div 42" by linarith
  then show ?thesis by (simp only: default_max_bits_def)
qed

text \<open>\<open>Math.floor((maxBits - 32) / 8)\<close> for a small integer \<open>maxBits\<close>.\<close>

lemma capacity_bytes:
  assumes "B \<le> 31329"
  shows "js_floor (js_div (js_sub (Num (of_nat B)) (Num 32)) (Num 8))
         = Num (of_int ((int B - 32) div 8))"
proof -
  define k where "k = int B - 32"
  have k: "\<bar>k\<bar> < 2 ^ 16" using assms by (simp add: k_def)
  have "(of_nat B :: rat) - 32 = of_int k" by (simp add: k_def)
  then have 1: "js_sub (Num (of_nat B)) (Num 32) = Num (of_int k)"
    using to_double_int [OF k] by (simp add: js_sub_def)
  have "\<bar>of_int k / 8 :: rat\<bar> < 2 ^ 16"
  proof -
    have "\<bar>k\<bar> < 65536" using k by simp
    then have "(of_int \<bar>k\<bar> :: rat) < of_int 65536" by (simp only: of_int_less_iff)
    then show ?thesis by simp
  qed
  moreover have "(of_int k / 8 :: rat) * 2 ^ 37 = of_int (k * 2 ^ 34)" by simp
  ultimately have 2: "to_double (of_int k / 8) = Num (of_int k / 8)" by (rule to_double_exact)
  have 3: "\<lfloor>of_int k / 8 :: rat\<rfloor> = k div 8"
    using floor_divide_of_int_eq [of k 8, where 'a = rat] by simp
  have "js_floor (js_div (Num (of_int k)) (Num 8)) = Num (of_int (k div 8))"
    by (simp add: js_div_def 2 js_floor_def 3)
  then show ?thesis unfolding 1 k_def .
qed

lemma distribution_loop_eq:
  "distribution_loop k t s c acc = acc @ map (\<lambda>i. (c + i * s) mod t) [0..<k]"
proof (induction k arbitrary: c acc)
  case 0
  then show ?case by simp
next
  case (Suc k)
  have "map (\<lambda>i. (c + i * s) mod t) [0..<Suc k]
        = (c mod t) # map (\<lambda>i. (c + Suc i * s) mod t) [0..<k]"
    by (simp add: upt_conv_Cons map_Suc_upt [symmetric] del: upt_Suc)
  moreover have "((c + s) mod t + i * s) mod t = (c + Suc i * s) mod t" for i
  proof -
    have "((c + s) mod t + i * s) mod t = ((c + s) + i * s) mod t"
      by (rule mod_add_left_eq)
    also have "(c + s) + i * s = c + Suc i * s" by simp
    finally show ?thesis .
  qed
  ultimately show ?case
    by (simp add: Suc.IH del: upt_Suc)
qed

lemma generateDistributionPattern_eq:
  "bitsNeeded \<le> totalModules \<Longrightarrow>
   generateDistributionPattern bitsNeeded totalModules
     = Inr (map (\<lambda>i. (i * findLargePrime totalModules) mod totalModules) [0..<bitsNeeded])"
  by (simp add: generateDistributionPattern_def distribution_loop_eq)

lemma isPrime_loop_iff:
  "isPrime_loop i n \<longleftrightarrow> (\<forall>k. (i + 2 * k) * (i + 2 * k) \<le> n \<longrightarrow> n mod (i + 2 * k) \<noteq> 0)"
proof (induction i n rule: isPrime_loop.induct)
  case (1 i n)
  show ?case
  proof (cases "i * i \<le> n")
    case False
    have "\<And>k. \<not> (i + 2 * k) * (i + 2 * k) \<le> n"
    proof
      fix k assume "(i + 2 * k) * (i + 2 * k) \<le> n"
      moreover have "i * i \<le> (i + 2 * k) * (i + 2 * k)" by (intro mult_le_mono) auto
      ultimately show False using False by simp
    qed
    with False show ?thesis by (subst isPrime_loop.simps) simp
  next
    case True
    show ?thesis
    proof (cases "n mod i = 0")
      case z: True
      have "\<not> (\<forall>k. (i + 2 * k) * (i + 2 * k) \<le> n \<longrightarrow> n mod (i + 2 * k) \<noteq> 0)"
        using True z by (auto intro: exI [of _ 0])
      with True z show ?thesis by (subst isPrime_loop.simps) simp
    next
      case nz: False
      have ih: "isPrime_loop (i + 2) n \<longleftrightarrow>
            (\<forall>k. (i + 2 + 2 * k) * (i + 2 + 2 * k) \<le> n \<longrightarrow> n mod (i + 2 + 2 * k) \<noteq> 0)"
        using 1 True nz by simp
      have "(\<forall>k. (i + 2 * k) * (i + 2 * k) \<le> n \<longrightarrow> n mod (i + 2 * k) \<noteq> 0)
            \<longleftrightarrow> (\<forall>k. (i + 2 + 2 * k) * (i + 2 + 2 * k) \<le> n \<longrightarrow> n mod (i + 2 + 2 * k) \<noteq> 0)"
        (is "?A \<longleftrightarrow> ?B")
      proof
        assume a: ?A
        show ?B
        proof (intro allI impI)
          fix k assume "(i + 2 + 2 * k) * (i + 2 + 2 * k) \<le> n"
          then have "(i + 2 * Suc k) * (i + 2 * Suc k) \<le> n" by (simp add: algebra_simps)
          with a have "n mod (i + 2 * Suc k) \<noteq> 0" by blast
          then show "n mod (i + 2 + 2 * k) \<noteq> 0" by (simp add: algebra_simps)
        qed
      next
        assume b: ?B
        show ?A
        proof (intro allI impI)
          fix k assume h: "(i + 2 * k) * (i + 2 * k) \<le> n"
          show "n mod (i + 2 * k) \<noteq> 0"
          proof (cases k)
            case 0
            then show ?thesis using nz by simp
          next
            case (Suc j)
            with h have "(i + 2 + 2 * j) * (i + 2 + 2 * j) \<le> n" by (simp add: algebra_simps)
            with b have "n mod (i + 2 + 2 * j) \<noteq> 0" by blast
            then show ?thesis using Suc by (simp add: algebra_simps)
          qed
        qed
      qed
      with ih True nz show ?thesis by (subst isPrime_loop.simps) simp
    qed
  qed
qed

lemma prime_nat_small_divisor:
  assumes "1 < n" "\<not> prime_nat n"
  shows "\<exists>e. 2 \<le> e \<and> e * e \<le> n \<and> e dvd n"
proof -
  from assms obtain d where d: "2 \<le> d" "d < n" "d dvd n"
    by (auto simp: prime_nat_def)
  then obtain k where k: "n = d * k" by (auto simp: dvd_def)
  with d have k2: "2 \<le> k" by (cases k; cases "k - 1") auto
  show ?thesis
  proof (cases "d \<le> k")
    case True
    then have "d * d \<le> n" using k by simp
    with d show ?thesis by blast
  next
    case False
    then have "k * k \<le> n" using k by simp
    moreover have "k dvd n" using k by simp
    ultimately show ?thesis using k2 by blast
  qed
qed

lemma odd_ge3_form:
  assumes "odd (e::nat)" "2 \<le> e"
  shows "\<exists>k. e = 3 + 2 * k"
proof -
  from assms obtain m where m: "e = 2 * m + 1" by (auto elim: oddE)
  with assms have "1 \<le> m" by simp
  then have "e = 3 + 2 * (m - 1)" using m by simp
  then show ?thesis ..
qed

lemma isPrime_iff: "isPrime n \<longleftrightarrow> prime_nat n"
proof (cases "n < 2")
  case True
  then show ?thesis by (auto simp: isPrime_def prime_nat_def)
next
  case n2: False
  show ?thesis
  proof (cases "n = 2")
    case True
    then show ?thesis by (simp add: isPrime_def prime_nat_def)
  next
    case n3: False
    show ?thesis
    proof (cases "n mod 2 = 0")
      case True
      then have "2 dvd n" by presburger
      moreover have "2 \<in> {2..<n}" using n2 n3 by simp
      ultimately have "\<not> prime_nat n" unfolding prime_nat_def by blast
      with True n2 n3 show ?thesis by (simp add: isPrime_def)
    next
      case oddn: False
      have eq: "isPrime n = isPrime_loop 3 n" using n2 n3 oddn by (simp add: isPrime_def)
      show ?thesis
      proof
        assume "isPrime n"
        then have L: "\<And>k. (3 + 2 * k) * (3 + 2 * k) \<le> n \<Longrightarrow> n mod (3 + 2 * k) \<noteq> 0"
          using eq isPrime_loop_iff by blast
        show "prime_nat n"
        proof (rule ccontr)
          assume "\<not> prime_nat n"
          with n2 obtain e where e: "2 \<le> e" "e * e \<le> n" "e dvd n"
            using prime_nat_small_divisor [of n] by auto
          have "odd e"
          proof
            assume "even e"
            then have "2 dvd n" using e(3) by (rule dvd_trans)
            then show False using oddn by presburger
          qed
          then obtain k where "e = 3 + 2 * k" using odd_ge3_form e(1) by blast
          with e L [of k] show False by auto
        qed
      next
        assume p: "prime_nat n"
        have "\<forall>k. (3 + 2 * k) * (3 + 2 * k) \<le> n \<longrightarrow> n mod (3 + 2 * k) \<noteq> 0"
        proof (intro allI impI)
          fix k assume h: "(3 + 2 * k) * (3 + 2 * k) \<le> n"
          have "(3 + 2 * k) * 2 \<le> (3 + 2 * k) * (3 + 2 * k)" by (intro mult_le_mono) auto
          with h have "3 + 2 * k < n" by simp
          then have "3 + 2 * k \<in> {2..<n}" by simp
          with p have "\<not> (3 + 2 * k) dvd n" unfolding prime_nat_def by blast
          then show "n mod (3 + 2 * k) \<noteq> 0" by (simp add: dvd_eq_mod_eq_0)
        qed
        then show "isPrime n" using eq isPrime_loop_iff by blast
      qed
    qed
  qed
qed

lemma findLargePrime_from_spec:
  "(findLargePrime_from c = 2 \<and> (\<forall>k. 2 < k \<and> k \<le> c \<longrightarrow> \<not> isPrime k))
   \<or> (2 < findLargePrime_from c \<and> findLargePrime_from c \<le> c \<and> isPrime (findLargePrime_from c)
       \<and> (\<forall>k. findLargePrime_from c < k \<and> k \<le> c \<longrightarrow> \<not> isPrime k))"
proof (induction c rule: findLargePrime_from.induct)
  case (1 c)
  show ?case
  proof (cases "2 < c")
    case False
    then have "findLargePrime_from c = 2" by (subst findLargePrime_from.simps) simp
    moreover have "\<forall>k. 2 < k \<and> k \<le> c \<longrightarrow> \<not> isPrime k" using False by auto
    ultimately show ?thesis by blast
  next
    case True
    show ?thesis
    proof (cases "isPrime c")
      case p: True
      with True have "findLargePrime_from c = c" by (subst findLargePrime_from.simps) simp
      with True p show ?thesis by auto
    next
      case np: False
      have eq: "findLargePrime_from c = findLargePrime_from (c - 1)"
        using True np by (subst findLargePrime_from.simps) simp
      from 1 [OF True np] show ?thesis
      proof
        assume a: "findLargePrime_from (c - 1) = 2 \<and> (\<forall>k. 2 < k \<and> k \<le> c - 1 \<longrightarrow> \<not> isPrime k)"
        have "\<forall>k. 2 < k \<and> k \<le> c \<longrightarrow> \<not> isPrime k"
        proof (intro allI impI)
          fix k assume "2 < k \<and> k \<le> c"
          then have "k = c \<or> (2 < k \<and> k \<le> c - 1)" by auto
          then show "\<not> isPrime k" using np a by blast
        qed
        with a eq show ?thesis by simp
      next
        assume b: "2 < findLargePrime_from (c - 1) \<and> findLargePrime_from (c - 1) \<le> c - 1
          \<and> isPrime (findLargePrime_from (c - 1))
          \<and> (\<forall>k. findLargePrime_from (c - 1) < k \<and> k \<le> c - 1 \<longrightarrow> \<not> isPrime k)"
        have "\<forall>k. findLargePrime_from (c - 1) < k \<and> k \<le> c \<longrightarrow> \<not> isPrime k"
        proof (intro allI impI)
          fix k assume "findLargePrime_from (c - 1) < k \<and> k \<le> c"
          then have "k = c \<or> (findLargePrime_from (c - 1) < k \<and> k \<le> c - 1)" by auto
          then show "\<not> isPrime k" using np b by blast
        qed
        moreover have "findLargePrime_from (c - 1) \<le> c" using b by auto
        ultimately show ?thesis using b eq by auto
      qed
    qed
  qed
qed

lemma isPrime_2: "isPrime 2" by (simp add: isPrime_def)
lemma isPrime_3: "isPrime 3" by (simp add: isPrime_def isPrime_loop.simps)

text \<open>findLargePrime returns the greatest prime below its argument, and 2 when there is none.\<close>
lemma findLargePrime_greatest:
  assumes "3 \<le> m"
  shows "isPrime (findLargePrime m) \<and> findLargePrime m < m
         \<and> (\<forall>q. isPrime q \<and> q < m \<longrightarrow> q \<le> findLargePrime m)"
proof -
  let ?r = "findLargePrime_from (m - 1)"
  from findLargePrime_from_spec [of "m - 1"] show ?thesis
  proof
    assume a: "?r = 2 \<and> (\<forall>k. 2 < k \<and> k \<le> m - 1 \<longrightarrow> \<not> isPrime k)"
    have "\<forall>q. isPrime q \<and> q < m \<longrightarrow> q \<le> 2"
    proof (intro allI impI)
      fix q assume q: "isPrime q \<and> q < m"
      show "q \<le> 2"
      proof (rule ccontr)
        assume "\<not> q \<le> 2"
        then have "2 < q \<and> q \<le> m - 1" using q by auto
        with a q show False by blast
      qed
    qed
    with a assms show ?thesis by (simp add: findLargePrime_def isPrime_2)
  next
    assume b: "2 < ?r \<and> ?r \<le> m - 1 \<and> isPrime ?r \<and> (\<forall>k. ?r < k \<and> k \<le> m - 1 \<longrightarrow> \<not> isPrime k)"
    have "\<forall>q. isPrime q \<and> q < m \<longrightarrow> q \<le> ?r"
    proof (intro allI impI)
      fix q assume q: "isPrime q \<and> q < m"
      show "q \<le> ?r"
      proof (rule ccontr)
        assume "\<not> q \<le> ?r"
        then have "?r < q \<and> q \<le> m - 1" using q by auto
        with b q show False by blast
      qed
    qed
    moreover have "?r < m" using b assms by auto
    ultimately show ?thesis using b by (simp add: findLargePrime_def)
  qed
qed

lemma findLargePrime_small: "m \<le> 3 \<Longrightarrow> findLargePrime m = 2"
proof -
  assume "m \<le> 3"
  then have "\<not> 2 < m - 1" by simp
  then have "findLargePrime_from (m - 1) = 2" by (subst findLargePrime_from.simps) (simp only: if_False)
  then show ?thesis by (simp add: findLargePrime_def)
qed

lemma chain_step:
  fixes a p q :: nat
  assumes "isPrime q" "q < 2 * a" "a \<le> p" "p < q"
  shows "\<exists>q. isPrime q \<and> p < q \<and> q < 2 * p"
  using assms by (intro exI [of _ q]) simp

lemma chain_primes:
  "isPrime 3" "isPrime 5" "isPrime 7" "isPrime 13" "isPrime 23" "isPrime 43"
  "isPrime 83" "isPrime 163" "isPrime 317" "isPrime 631" "isPrime 1259" "isPrime 2503"
  "isPrime 5003" "isPrime 9973" "isPrime 19937"
  by (simp_all add: isPrime_def isPrime_loop.simps)

lemma bertrand_chain:
  fixes p :: nat
  assumes "2 \<le> p" "p < 19937"
  shows "\<exists>q. isPrime q \<and> p < q \<and> q < 2 * p"
proof -
  let ?T = "\<exists>q. isPrime q \<and> p < q \<and> q < 2 * p"
  have r1: "?T" if "p < 3"
    using chain_step [OF chain_primes(1), of 2 p] assms(1) that by simp
  have r2: "?T" if "p < 5"
  proof (cases "p < 3")
    case True
    then show ?thesis by (rule r1)
  next
    case False
    then show ?thesis using chain_step [OF chain_primes(2), of 3 p] that by simp
  qed
  have r3: "?T" if "p < 7"
  proof (cases "p < 5")
    case True
    then show ?thesis by (rule r2)
  next
    case False
    then show ?thesis using chain_step [OF chain_primes(3), of 5 p] that by simp
  qed
  have r4: "?T" if "p < 13"
  proof (cases "p < 7")
    case True
    then show ?thesis by (rule r3)
  next
    case False
    then show ?thesis using chain_step [OF chain_primes(4), of 7 p] that by simp
  qed
  have r5: "?T" if "p < 23"
  proof (cases "p < 13")
    case True
    then show ?thesis by (rule r4)
  next
    case False
    then show ?thesis using chain_step [OF chain_primes(5), of 13 p] that by simp
  qed
  have r6: "?T" if "p < 43"
  proof (cases "p < 23")
    case True
    then show ?thesis by (rule r5)
  next
    case False
    then show ?thesis using chain_step [OF chain_primes(6), of 23 p] that by simp
  qed
  have r7: "?T" if "p < 83"
  proof (cases "p < 43")
    case True
    then show ?thesis by (rule r6)
  next
    case False
    then show ?thesis using chain_step [OF chain_primes(7), of 43 p] that by simp
  qed
  have r8: "?T" if "p < 163"
  proof (cases "p < 83")
    case True
    then show ?thesis by (rule r7)
  next
    case False
    then show ?thesis using chain_step [OF chain_primes(8), of 83 p] that by simp
  qed
  have r9: "?T" if "p < 317"
  proof (cases "p < 163")
    case True
    then show ?thesis by (rule r8)
  next
    case False
    then show ?thesis using chain_step [OF chain_primes(9), of 163 p] that by simp
  qed
  have r10: "?T" if "p < 631"
  proof (cases "p < 317")
    case True
    then show ?thesis by (rule r9)
  next
    case False
    then show ?thesis using chain_step [OF chain_primes(10), of 317 p] that by simp
  qed
  have r11: "?T" if "p < 1259"
  proof (cases "p < 631")
    case True
    then show ?thesis by (rule r10)
  next
    case False
    then show ?thesis using chain_step [OF chain_primes(11), of 631 p] that by simp
  qed
  have r12: "?T" if "p < 2503"
  proof (cases "p < 1259")
    case True
    then show ?thesis by (rule r11)
  next
    case False
    then show ?thesis using chain_step [OF chain_primes(12), of 1259 p] that by simp
  qed
  have r13: "?T" if "p < 5003"
  proof (cases "p < 2503")
    case True
    then show ?thesis by (rule r12)
  next
    case False
    then show ?thesis using chain_step [OF chain_primes(13), of 2503 p] that by simp
  qed
  have r14: "?T" if "p < 9973"
  proof (cases "p < 5003")
    case True
    then show ?thesis by (rule r13)
  next
    case False
    then show ?thesis using chain_step [OF chain_primes(14), of 5003 p] that by simp
  qed
  have r15: "?T" if "p < 19937"
  proof (cases "p < 9973")
    case True
    then show ?thesis by (rule r14)
  next
    case False
    then show ?thesis using chain_step [OF chain_primes(15), of 9973 p] that by simp
  qed
  show ?thesis using assms(2) by (rule r15)
qed

lemma prime_nat_coprime:
  assumes "prime_nat p" "\<not> p dvd n"
  shows "coprime p n"
proof -
  let ?g = "gcd p n"
  have p1: "1 < p" using assms(1) by (simp add: prime_nat_def)
  have gd: "?g dvd p" by simp
  then have "?g \<le> p" using p1 by (intro dvd_imp_le) auto
  moreover have "?g \<noteq> p" using assms(2) by (metis gcd_dvd2)
  moreover have "0 < ?g" using p1 by simp
  moreover have "\<not> (2 \<le> ?g \<and> ?g < p)" using assms(1) gd unfolding prime_nat_def by auto
  ultimately have "?g = 1" by linarith
  then show ?thesis by (simp add: coprime_iff_gcd_eq_1)
qed

lemma findLargePrime_coprime:
  assumes "3 \<le> m" "m \<le> 31329"
  shows "coprime (findLargePrime m) m"
proof -
  let ?p = "findLargePrime m"
  from findLargePrime_greatest [OF assms(1)]
  have pp: "isPrime ?p" and lt: "?p < m" and mx: "\<And>q. isPrime q \<Longrightarrow> q < m \<Longrightarrow> q \<le> ?p"
    by blast+
  have p2: "2 \<le> ?p" using pp by (simp add: isPrime_iff prime_nat_def)
  have "\<not> ?p dvd m"
  proof
    assume "?p dvd m"
    then obtain k where k: "m = ?p * k" by (auto simp: dvd_def)
    with lt p2 have "2 \<le> k" by (cases k; cases "k - 1") auto
    then have "?p * 2 \<le> ?p * k" by (intro mult_le_mono) auto
    then have two: "2 * ?p \<le> m" using k by simp
    with assms(2) have "?p < 19937" by simp
    with p2 obtain q where q: "isPrime q" "?p < q" "q < 2 * ?p"
      using bertrand_chain by blast
    then have "q < m" using two by simp
    with q(1) have "q \<le> ?p" by (rule mx)
    with q(2) show False by simp
  qed
  with pp show ?thesis by (intro prime_nat_coprime) (simp_all add: isPrime_iff)
qed

lemma prime_step_inj:
  fixes s t i j :: nat
  assumes cp: "coprime s t" and ij: "i < t" "j < t" and eq: "(i * s) mod t = (j * s) mod t"
  shows "i = j"
proof -
  have aux: "a = b" if ab: "a \<le> b" "b < t" and e: "(a * s) mod t = (b * s) mod t" for a b :: nat
  proof -
    have le: "a * s \<le> b * s" using ab(1) by simp
    have "(b * s) mod t = (a * s) mod t" using e by simp
    then have "t dvd b * s - a * s" using mod_eq_dvd_iff_nat [OF le, of t] by blast
    then have "t dvd (b - a) * s" by (simp add: diff_mult_distrib)
    moreover have "coprime t s" using cp by (simp add: coprime_commute)
    ultimately have "t dvd b - a" by (simp add: coprime_dvd_mult_left_iff)
    moreover have "b - a < t" using ab by simp
    ultimately have "b - a = 0" by (meson dvd_imp_le not_less zero_less_iff_neq_zero)
    with ab show ?thesis by simp
  qed
  show ?thesis
  proof (cases "i \<le> j")
    case True
    then show ?thesis using aux [of i j] ij eq by simp
  next
    case False
    then have "j \<le> i" by simp
    then show ?thesis using aux [of j i] ij eq by simp
  qed
qed

lemma prime_step_distinct:
  fixes s t n :: nat
  assumes "coprime s t" "n \<le> t"
  shows "distinct (map (\<lambda>i. (i * s) mod t) [0..<n])"
proof -
  have "inj_on (\<lambda>i. (i * s) mod t) (set [0..<n])"
  proof (rule inj_onI)
    fix i j assume "i \<in> set [0..<n]" "j \<in> set [0..<n]" "(i * s) mod t = (j * s) mod t"
    then show "i = j" using prime_step_inj [OF assms(1), of i j] assms(2) by simp
  qed
  then show ?thesis by (simp add: distinct_map)
qed

lemma fold_or_bit:
  fixes v0 :: nat
  shows "bit (fold (\<lambda>i v. if P i then v OR push_bit (f i) 1 else v) xs v0) k
         \<longleftrightarrow> bit v0 k \<or> (\<exists>i\<in>set xs. P i \<and> f i = k)"
proof (induction xs arbitrary: v0)
  case Nil
  then show ?case by simp
next
  case (Cons a xs)
  show ?case
    by (auto simp: Cons.IH bit_or_iff bit_exp_iff)
qed

lemma bit_read_bits:
  "bit (read_bits bits start n) k \<longleftrightarrow> k < n \<and> bit_at bits (start + (n - 1 - k))"
proof -
  have "bit (read_bits bits start n) k
        \<longleftrightarrow> (\<exists>i\<in>set [0..<n]. bit_at bits (start + i) \<and> n - 1 - i = k)"
    unfolding read_bits_def by (subst fold_or_bit) simp
  also have "\<dots> \<longleftrightarrow> k < n \<and> bit_at bits (start + (n - 1 - k))"
  proof
    assume "\<exists>i\<in>set [0..<n]. bit_at bits (start + i) \<and> n - 1 - i = k"
    then obtain i where i: "i < n" "bit_at bits (start + i)" "n - 1 - i = k" by auto
    then have "k < n" "n - 1 - k = i" by auto
    with i show "k < n \<and> bit_at bits (start + (n - 1 - k))" by simp
  next
    assume a: "k < n \<and> bit_at bits (start + (n - 1 - k))"
    then have "n - 1 - k < n" "n - 1 - (n - 1 - k) = k" by auto
    with a show "\<exists>i\<in>set [0..<n]. bit_at bits (start + i) \<and> n - 1 - i = k"
      by (intro bexI [of _ "n - 1 - k"]) auto
  qed
  finally show ?thesis .
qed

lemma read_bits_cong:
  assumes "\<And>i. i < n \<Longrightarrow> bit_at b1 (s1 + i) = bit_at b2 (s2 + i)"
  shows "read_bits b1 s1 n = read_bits b2 s2 n"
proof (rule bit_eqI)
  fix k
  show "bit (read_bits b1 s1 n) k = bit (read_bits b2 s2 n) k"
  proof (cases "k < n")
    case False
    then show ?thesis by (simp add: bit_read_bits)
  next
    case True
    then have "n - 1 - k < n" by auto
    then have "bit_at b1 (s1 + (n - 1 - k)) = bit_at b2 (s2 + (n - 1 - k))" by (rule assms)
    then show ?thesis by (simp only: bit_read_bits)
  qed
qed

lemma push_bits_length [simp]: "length (push_bits n v) = n"
  by (simp add: push_bits_def)

lemma push_bits_nth:
  assumes "j < n"
  shows "push_bits n v ! j = bit v (n - 1 - j)"
proof -
  have "rev [0..<n] ! j = n - 1 - j" using assms by (simp add: rev_nth)
  moreover have "(drop_bit i v AND 1 = 1) = bit v i" for i
    by (simp add: bit_iff_odd_drop_bit and_one_eq mod_2_eq_odd)
  ultimately show ?thesis using assms by (simp add: push_bits_def)
qed

lemma read_bits_push_bits:
  assumes "start + n \<le> length bits"
    and "\<And>j. j < n \<Longrightarrow> bits ! (start + j) = push_bits n v ! j"
  shows "read_bits bits start n = take_bit n v"
proof (rule bit_eqI)
  fix k
  show "bit (read_bits bits start n) k = bit (take_bit n v) k"
  proof (cases "k < n")
    case False
    then show ?thesis by (simp add: bit_read_bits bit_take_bit_iff)
  next
    case True
    then have j: "n - 1 - k < n" and inv: "n - 1 - (n - 1 - k) = k" by auto
    have "bit_at bits (start + (n - 1 - k)) = bits ! (start + (n - 1 - k))"
      using assms(1) j by (simp add: bit_at_def)
    also have "\<dots> = push_bits n v ! (n - 1 - k)" using assms(2) [OF j] .
    also have "\<dots> = bit v k" using push_bits_nth [OF j, of v] inv by simp
    finally show ?thesis using True by (simp add: bit_read_bits bit_take_bit_iff)
  qed
qed

lemma concat_blocks_nth:
  assumes "\<And>x. x \<in> set xs \<Longrightarrow> length (f x) = m" "j < length xs" "i < m"
  shows "concat (map f xs) ! (j * m + i) = f (xs ! j) ! i"
  using assms
proof (induction xs arbitrary: j)
  case Nil
  then show ?case by simp
next
  case (Cons a xs)
  show ?case
  proof (cases j)
    case 0
    then show ?thesis using Cons.prems by (simp add: nth_append)
  next
    case (Suc j')
    have "concat (map f (a # xs)) ! (j * m + i) = concat (map f xs) ! (j' * m + i)"
      using Suc Cons.prems(1) [of a] by (simp add: nth_append)
    also have "\<dots> = f (xs ! j') ! i"
      using Cons.prems Suc by (intro Cons.IH) auto
    finally show ?thesis using Suc by simp
  qed
qed

lemma concat_blocks_length:
  assumes "\<And>x. x \<in> set xs \<Longrightarrow> length (f x) = m"
  shows "length (concat (map f xs)) = length xs * m"
  using assms by (induction xs) auto

lemma frame_length: "length (frame bs) = 32 + 8 * length bs"
  by (simp add: frame_def concat_blocks_length [where m = 8])

lemma frame_nth_length: "j < 16 \<Longrightarrow> frame bs ! j = push_bits 16 (length bs) ! j"
  by (simp add: frame_def nth_append)

lemma frame_nth_payload:
  assumes "j < length bs" "i < 8"
  shows "frame bs ! (16 + j * 8 + i) = push_bits 8 (unat (bs ! j)) ! i"
proof -
  have len: "length (concat (map (\<lambda>b. push_bits 8 (unat b)) bs)) = length bs * 8"
    by (simp add: concat_blocks_length [where m = 8])
  have "j * 8 + i < length bs * 8" using assms by (induction "length bs" arbitrary: bs j) auto
  then show ?thesis
    using concat_blocks_nth [where f = "\<lambda>b. push_bits 8 (unat b)" and m = 8 and xs = bs, OF _ assms]
    by (simp add: frame_def nth_append len add.assoc)
qed

lemma frame_nth_crc:
  assumes "i < 16"
  shows "frame bs ! (16 + length bs * 8 + i) = push_bits 16 (calculateChecksum bs) ! i"
  using assms by (simp add: frame_def nth_append concat_blocks_length [where m = 8])

lemma calculateChecksum_less: "calculateChecksum bs < 65536"
proof -
  have "foldl crc_byte 0xFFFF bs AND 0xFFFF \<le> (0xFFFF :: int32)"
    by (rule word_and_le1)
  then have "unat (foldl crc_byte 0xFFFF bs AND 0xFFFF) \<le> unat (0xFFFF :: int32)"
    by (simp add: word_le_nat_alt)
  then show ?thesis by (simp add: calculateChecksum_def)
qed

lemma encodeSecondaryMessage_frame:
  assumes "\<not> js_gt (Num (of_nat (32 + length (TextEncoder_encode m) * 8))) maxBits"
  shows "encodeSecondaryMessage m maxBits = Inr (frame (TextEncoder_encode m))"
  using assms by (simp add: encodeSecondaryMessage_def frame_def Let_def)

lemma js_gt_Num [simp]: "js_gt (Num a) (Num b) = (b < a)"
  by (simp add: js_gt_def)

lemma js_le_Num [simp]: "js_le (Num a) (Num b) = (a \<le> b)"
  by (simp add: js_le_def)

lemma TextDecoder_Nil [simp]: "TextDecoder_decode [] = []"
  by (simp add: TextDecoder_decode_def utf8_decoder.simps strip_bom_def)

lemma read_frame_length:
  assumes "length bs < 65536"
  shows "read_bits (frame bs) 0 16 = length bs"
proof -
  have "read_bits (frame bs) 0 16 = take_bit 16 (length bs)"
    by (rule read_bits_push_bits) (simp_all add: frame_length frame_nth_length)
  also have "\<dots> = length bs" using assms by (simp add: take_bit_nat_eq_self_iff)
  finally show ?thesis .
qed

lemma read_frame_byte:
  assumes "j < length bs"
  shows "(of_nat (read_bits (frame bs) (16 + j * 8) 8) :: byte) = bs ! j"
proof -
  have "read_bits (frame bs) (16 + j * 8) 8 = take_bit 8 (unat (bs ! j))"
  proof (rule read_bits_push_bits)
    show "16 + j * 8 + 8 \<le> length (frame bs)" using assms by (simp add: frame_length)
  next
    fix i :: nat assume "i < 8"
    then show "frame bs ! (16 + j * 8 + i) = push_bits 8 (unat (bs ! j)) ! i"
      using assms by (rule frame_nth_payload [rotated])
  qed
  also have "\<dots> = unat (bs ! j)"
    using unsigned_less [of "bs ! j", where 'a = nat] by (simp add: take_bit_nat_eq_self_iff)
  finally show ?thesis by simp
qed

lemma read_frame_bytes:
  "map (\<lambda>j. of_nat (read_bits (frame bs) (16 + j * 8) 8)) [0..<length bs] = bs"
  by (rule nth_equalityI) (simp_all add: read_frame_byte)

lemma read_frame_crc:
  "read_bits (frame bs) (16 + length bs * 8) 16 = calculateChecksum bs"
proof -
  have "read_bits (frame bs) (16 + length bs * 8) 16 = take_bit 16 (calculateChecksum bs)"
    by (rule read_bits_push_bits) (simp_all add: frame_length frame_nth_crc)
  also have "\<dots> = calculateChecksum bs"
    using calculateChecksum_less [of bs] by (simp add: take_bit_nat_eq_self_iff)
  finally show ?thesis .
qed

lemma decode_frame:
  assumes "length bs < 65536"
  shows "decodeSecondaryMessage (frame bs) = Inr (TextDecoder_decode bs)"
proof (cases "length bs = 0")
  case True
  then show ?thesis
    using read_frame_length [OF assms]
    by (simp add: decodeSecondaryMessage_def frame_length)
next
  case False
  then show ?thesis
    using read_frame_length [OF assms]
    by (simp add: decodeSecondaryMessage_def frame_length read_frame_bytes read_frame_crc Let_def)
qed

lemma crc_shift_Suc: "crc_shift (Suc k) c = crc_shift k (crc_step c)"
  by (simp add: crc_step_def)

lemma crc_feedback_bit: "(c AND 0x8000 \<noteq> 0) = bit c 15" for c :: int32
proof -
  have "(0x8000 :: int32) = 2 ^ 15" by simp
  then show ?thesis by (simp only: and_exp_eq_0_iff_not_bit) simp
qed

lemma crc_step_bit0: "bit (crc_step c) 0 = bit c 15"
proof -
  have z: "\<not> bit (push_bit 1 c) 0" by (simp only: bit_push_bit_iff) simp
  have k: "bit (0x1021 :: int32) 0" by simp
  show ?thesis
    unfolding crc_step_def crc_feedback_bit
    by (cases "bit c 15") (simp_all only: if_True if_False bit_xor_iff z k, simp_all)
qed

lemma take_bit_xor_cancel:
  fixes a b k :: int32
  assumes "take_bit n (a XOR k) = take_bit n (b XOR k)"
  shows "take_bit n a = take_bit n b"
proof -
  have "take_bit n a XOR take_bit n k = take_bit n b XOR take_bit n k"
    using assms by (simp add: take_bit_xor)
  then have "(take_bit n a XOR take_bit n k) XOR take_bit n k
             = (take_bit n b XOR take_bit n k) XOR take_bit n k" by simp
  then show ?thesis by (simp add: xor.assoc)
qed

lemma crc_step_inj16:
  assumes "take_bit 16 (crc_step c) = take_bit 16 (crc_step d)"
  shows "take_bit 16 c = take_bit 16 d"
proof -
  have "bit (take_bit 16 (crc_step c)) 0 = bit (take_bit 16 (crc_step d)) 0"
    using assms by simp
  then have b15: "bit c 15 = bit d 15"
    by (simp add: bit_take_bit_iff crc_step_bit0)
  have sh: "take_bit 16 (push_bit 1 c) = take_bit 16 (push_bit 1 d)"
  proof (cases "bit c 15")
    case True
    with b15 have "crc_step c = push_bit 1 c XOR 0x1021" "crc_step d = push_bit 1 d XOR 0x1021"
      unfolding crc_step_def crc_feedback_bit by (simp_all only: if_True)
    with assms have "take_bit 16 (push_bit 1 c XOR 0x1021) = take_bit 16 (push_bit 1 d XOR 0x1021)"
      by (simp only:)
    then show ?thesis by (rule take_bit_xor_cancel)
  next
    case False
    with b15 have "crc_step c = push_bit 1 c" "crc_step d = push_bit 1 d"
      unfolding crc_step_def crc_feedback_bit by (simp_all only: if_False)
    with assms show ?thesis by (simp only:)
  qed
  show ?thesis
  proof (rule bit_eqI)
    fix n
    show "bit (take_bit 16 c) n = bit (take_bit 16 d) n"
    proof (cases "n < 15")
      case True
      have l: "bit (take_bit 16 (push_bit 1 w)) (Suc n) = bit w n" for w :: int32
        using True by (simp only: bit_take_bit_iff bit_push_bit_iff) (simp add: possible_bit_word)
      have "bit c n = bit (take_bit 16 (push_bit 1 c)) (Suc n)" by (simp only: l)
      also have "\<dots> = bit (take_bit 16 (push_bit 1 d)) (Suc n)" by (simp only: sh)
      also have "\<dots> = bit d n" by (simp only: l)
      finally show ?thesis using True by (simp add: bit_take_bit_iff)
    next
      case False
      then show ?thesis using b15
        by (cases "n = 15") (simp_all add: bit_take_bit_iff)
    qed
  qed
qed

lemma crc_shift_inj16:
  "take_bit 16 (crc_shift k c) = take_bit 16 (crc_shift k d) \<Longrightarrow> take_bit 16 c = take_bit 16 d"
proof (induction k arbitrary: c d)
  case 0
  then show ?case by simp
next
  case (Suc k)
  from Suc.prems have "take_bit 16 (crc_shift k (crc_step c)) = take_bit 16 (crc_shift k (crc_step d))"
    by (simp only: crc_shift_Suc)
  then have "take_bit 16 (crc_step c) = take_bit 16 (crc_step d)"
    by (rule Suc.IH)
  then show ?case by (rule crc_step_inj16)
qed

lemma crc_byte_inj_state:
  assumes "take_bit 16 (crc_byte c b) = take_bit 16 (crc_byte d b)"
  shows "take_bit 16 c = take_bit 16 d"
proof -
  have "take_bit 16 (c XOR push_bit 8 (ucast b)) = take_bit 16 (d XOR push_bit 8 (ucast b))"
    using assms unfolding crc_byte_def by (rule crc_shift_inj16)
  then show ?thesis by (rule take_bit_xor_cancel)
qed

lemma crc_byte_inj_byte:
  assumes "take_bit 16 (crc_byte c b1) = take_bit 16 (crc_byte c b2)"
  shows "b1 = b2"
proof -
  have "take_bit 16 (c XOR push_bit 8 (ucast b1)) = take_bit 16 (c XOR push_bit 8 (ucast b2))"
    using assms unfolding crc_byte_def by (rule crc_shift_inj16)
  then have "take_bit 16 (push_bit 8 (ucast b1) XOR c) = take_bit 16 (push_bit 8 (ucast b2) XOR c)"
    by (simp add: xor.commute)
  then have e: "take_bit 16 (push_bit 8 (ucast b1) :: int32) = take_bit 16 (push_bit 8 (ucast b2))"
    by (rule take_bit_xor_cancel)
  show ?thesis
  proof (rule bit_eqI)
    fix n assume "possible_bit TYPE(byte) n"
    then have n: "n < 8" by (simp add: possible_bit_word)
    have l: "bit (take_bit 16 (push_bit 8 (ucast w) :: int32)) (8 + n) = bit w n" for w :: byte
      using n by (simp only: bit_take_bit_iff bit_push_bit_iff bit_ucast_iff)
        (simp add: possible_bit_word)
    have "bit b1 n = bit (take_bit 16 (push_bit 8 (ucast b1) :: int32)) (8 + n)" by (simp only: l)
    also have "\<dots> = bit (take_bit 16 (push_bit 8 (ucast b2) :: int32)) (8 + n)" by (simp only: e)
    also have "\<dots> = bit b2 n" by (simp only: l)
    finally show "bit b1 n = bit b2 n" .
  qed
qed

lemma foldl_crc_inj_state:
  "take_bit 16 (foldl crc_byte c bs) = take_bit 16 (foldl crc_byte d bs)
   \<Longrightarrow> take_bit 16 c = take_bit 16 d"
proof (induction bs arbitrary: c d)
  case Nil
  then show ?case by simp
next
  case (Cons b bs)
  from Cons.prems
  have "take_bit 16 (foldl crc_byte (crc_byte c b) bs) = take_bit 16 (foldl crc_byte (crc_byte d b) bs)"
    by simp
  then have "take_bit 16 (crc_byte c b) = take_bit 16 (crc_byte d b)" by (rule Cons.IH)
  then show ?case by (rule crc_byte_inj_state)
qed

lemma calculateChecksum_take_bit:
  "calculateChecksum bs = unat (take_bit 16 (foldl crc_byte 0xFFFF bs))"
proof -
  have "(0xFFFF :: int32) = mask 16" by (simp add: mask_eq_exp_minus_1)
  then show ?thesis by (simp only: calculateChecksum_def take_bit_eq_mask)
qed

lemma calculateChecksum_single_byte:
  assumes "calculateChecksum (xs @ b1 # ys) = calculateChecksum (xs @ b2 # ys)"
  shows "b1 = b2"
proof -
  let ?s = "foldl crc_byte 0xFFFF xs"
  have "take_bit 16 (foldl crc_byte (crc_byte ?s b1) ys)
        = take_bit 16 (foldl crc_byte (crc_byte ?s b2) ys)"
    using assms by (simp add: calculateChecksum_take_bit word_unat_eq_iff)
  then have "take_bit 16 (crc_byte ?s b1) = take_bit 16 (crc_byte ?s b2)"
    by (rule foldl_crc_inj_state)
  then show ?thesis by (rule crc_byte_inj_byte)
qed

lemma bit_at_update:
  "bit_at (xs[k := v]) i = (if i = k then k < length xs \<and> v else bit_at xs i)"
  by (auto simp: bit_at_def)

lemma calculateChecksum_update:
  assumes "j < length bs" "b \<noteq> bs ! j"
  shows "calculateChecksum (bs[j := b]) \<noteq> calculateChecksum bs"
proof
  assume eq: "calculateChecksum (bs[j := b]) = calculateChecksum bs"
  have "bs[j := b] = take j bs @ b # drop (Suc j) bs"
    using assms(1) by (rule upd_conv_take_nth_drop)
  moreover have "bs = take j bs @ bs ! j # drop (Suc j) bs"
    using assms(1) by (rule id_take_nth_drop)
  ultimately have "calculateChecksum (take j bs @ b # drop (Suc j) bs)
                   = calculateChecksum (take j bs @ bs ! j # drop (Suc j) bs)"
    using eq by simp
  then have "b = bs ! j" by (rule calculateChecksum_single_byte)
  with assms(2) show False by simp
qed

lemma tampered_frame:
  assumes len: "length bs < 65536" and k: "16 \<le> k" "k < 16 + 8 * length bs"
  shows "\<exists>e. e \<noteq> calculateChecksum bs \<and>
    decodeSecondaryMessage ((frame bs)[k := \<not> frame bs ! k])
      = Inl (ChecksumMismatch e (calculateChecksum bs))"
proof -
  let ?bits = "frame bs"
  let ?bits' = "?bits[k := \<not> ?bits ! k]"
  define j0 where "j0 = (k - 16) div 8"
  define i0 where "i0 = (k - 16) mod 8"
  have kk: "k = 16 + j0 * 8 + i0" "j0 < length bs" "i0 < 8"
    using k by (auto simp: j0_def i0_def)
  have klen: "k < length ?bits" using k by (simp add: frame_length)
  have pos: "0 < length bs" using k by auto
  have L: "read_bits ?bits' 0 16 = length bs"
  proof -
    have "read_bits ?bits' 0 16 = read_bits ?bits 0 16"
      by (rule read_bits_cong) (use k in \<open>simp add: bit_at_update\<close>)
    then show ?thesis using read_frame_length [OF len] by simp
  qed
  have C: "read_bits ?bits' (16 + length bs * 8) 16 = calculateChecksum bs"
  proof -
    have "read_bits ?bits' (16 + length bs * 8) 16 = read_bits ?bits (16 + length bs * 8) 16"
      by (rule read_bits_cong) (use k in \<open>simp add: bit_at_update\<close>)
    then show ?thesis using read_frame_crc by simp
  qed
  define b' :: byte where "b' = of_nat (read_bits ?bits' (16 + j0 * 8) 8)"
  have other: "(of_nat (read_bits ?bits' (16 + j * 8) 8) :: byte) = bs ! j"
    if "j < length bs" "j \<noteq> j0" for j
  proof -
    have "read_bits ?bits' (16 + j * 8) 8 = read_bits ?bits (16 + j * 8) 8"
    proof (rule read_bits_cong)
      fix i :: nat assume "i < 8"
      then have "16 + j * 8 + i \<noteq> k" using kk that(2) by (cases "j < j0") auto
      then show "bit_at ?bits' (16 + j * 8 + i) = bit_at ?bits (16 + j * 8 + i)"
        by (simp add: bit_at_update)
    qed
    then show ?thesis using read_frame_byte [OF that(1)] by simp
  qed
  have B: "map (\<lambda>byteIdx. of_nat (read_bits ?bits' (16 + byteIdx * 8) 8)) [0..<length bs]
           = bs[j0 := b']"
  proof (rule nth_equalityI)
    show "length (map (\<lambda>byteIdx. of_nat (read_bits ?bits' (16 + byteIdx * 8) 8) :: byte)
             [0..<length bs]) = length (bs[j0 := b'])" by simp
  next
    fix j assume "j < length (map (\<lambda>byteIdx. of_nat (read_bits ?bits' (16 + byteIdx * 8) 8) :: byte)
             [0..<length bs])"
    then have j: "j < length bs" by simp
    show "map (\<lambda>byteIdx. of_nat (read_bits ?bits' (16 + byteIdx * 8) 8)) [0..<length bs] ! j
          = bs[j0 := b'] ! j"
    proof (cases "j = j0")
      case True
      then show ?thesis using j by (simp add: b'_def)
    next
      case False
      then show ?thesis using j other [OF j False] by simp
    qed
  qed
  have D: "b' \<noteq> bs ! j0"
  proof
    assume eq: "b' = bs ! j0"
    have old: "bs ! j0 = of_nat (read_bits ?bits (16 + j0 * 8) 8)"
      using read_frame_byte [OF kk(2)] by simp
    have i7: "7 - i0 < 8" "8 - 1 - (7 - i0) = i0" using kk(3) by auto
    have "bit b' (7 - i0) = bit (read_bits ?bits' (16 + j0 * 8) 8) (7 - i0)"
      unfolding b'_def using i7(1) by (simp add: bit_of_nat_iff possible_bit_word)
    also have "\<dots> = bit_at ?bits' k"
      using i7 kk(1) by (simp add: bit_read_bits)
    also have "\<dots> = (\<not> ?bits ! k)" using klen by (simp add: bit_at_update)
    finally have n1: "bit b' (7 - i0) = (\<not> ?bits ! k)" .
    have "bit (bs ! j0) (7 - i0) = bit (read_bits ?bits (16 + j0 * 8) 8) (7 - i0)"
      by (subst old) (use i7(1) in \<open>simp add: bit_of_nat_iff possible_bit_word\<close>)
    also have "\<dots> = bit_at ?bits k"
      using i7 kk(1) by (simp add: bit_read_bits)
    also have "\<dots> = ?bits ! k" using klen by (simp add: bit_at_def)
    finally have n2: "bit (bs ! j0) (7 - i0) = ?bits ! k" .
    from n1 n2 eq show False by simp
  qed
  have E: "calculateChecksum (bs[j0 := b']) \<noteq> calculateChecksum bs"
    using kk(2) D by (rule calculateChecksum_update)
  have "decodeSecondaryMessage ?bits'
        = Inl (ChecksumMismatch (calculateChecksum (bs[j0 := b'])) (calculateChecksum bs))"
    using pos E by (simp add: decodeSecondaryMessage_def frame_length L C B Let_def)
  with E show ?thesis by blast
qed

subsection \<open>The specification's largest prime and the source's \<open>findLargePrime\<close>\<close>



lemma push_bits_zero: "push_bits 16 0 = replicate 16 False"
  by (rule nth_equalityI) (simp_all add: push_bits_nth)

lemma push_bits_ffff: "push_bits 16 65535 = replicate 16 True"
proof (rule nth_equalityI)
  show "length (push_bits 16 65535) = length (replicate 16 True)" by simp
next
  fix j assume "j < length (push_bits 16 65535)"
  then have j: "j < 16" by simp
  have "(65535 :: nat) = mask 16" by (simp add: mask_eq_exp_minus_1)
  then have "bit (65535 :: nat) (16 - 1 - j)" using j by (simp only: bit_mask_iff) simp
  then show "push_bits 16 65535 ! j = replicate 16 True ! j"
    using j by (simp add: push_bits_nth)
qed

lemma calculateChecksum_Nil: "calculateChecksum [] = 65535"
  by (simp add: calculateChecksum_def)

lemma read_frame_length_gen: "read_bits (frame bs) 0 16 = take_bit 16 (length bs)"
  by (rule read_bits_push_bits) (simp_all add: frame_length frame_nth_length)

lemma decode_length_65536:
  assumes "length bits = 32 + 8 * 65536" "read_bits bits 0 16 = 0"
  shows "decodeSecondaryMessage bits = Inr []"
  using assms by (simp add: decodeSecondaryMessage_def)

lemma isFunctionPattern_is_fp: "isFunctionPattern x y qr = is_fp (msize qr) (mversion qr) x y"
  by (simp add: isFunctionPattern_def is_fp_def)

lemma positions_from_append:
  "positions_from n (xs @ ys) = positions_from n xs @ positions_from (n + length xs) ys"
  by (induction xs arbitrary: n) auto

lemma positions_from_length [simp]: "length (positions_from n cs) = length cs"
  by (induction cs arbitrary: n) auto

lemma positions_from_nth:
  "i < length cs \<Longrightarrow> positions_from n cs ! i = \<lparr>pos_x = fst (cs ! i), pos_y = snd (cs ! i), pos_index = n + i\<rparr>"
proof (induction cs arbitrary: n i)
  case Nil
  then show ?case by simp
next
  case (Cons c cs)
  then show ?case by (cases i) auto
qed

lemma set_cells: "set (cells sz) = {c. fst c < sz \<and> snd c < sz}"
  by (auto simp: cells_def)

lemma distinct_cells: "distinct (cells sz)"
  unfolding cells_def
  by (rule distinct_concat) (auto simp: distinct_map inj_on_def)

lemma fold_flippable_step:
  assumes "grid_ok (msize qr) (mversion qr) (modules qr)" "set cs \<subseteq> set (cells (msize qr))"
  shows "fold (flippable_step qr) cs (Inr acc)
         = Inr (acc @ positions_from (length acc)
                        (filter (\<lambda>c. \<not> is_fp (msize qr) (mversion qr) (fst c) (snd c)) cs))"
  using assms(2)
proof (induction cs arbitrary: acc)
  case Nil
  then show ?case by simp
next
  case (Cons c cs)
  obtain x y where c: "c = (x, y)" by (cases c)
  from Cons.prems c have xy: "x < msize qr" "y < msize qr" by (auto simp: set_cells)
  from assms(1) xy have row: "nth_opt (modules qr) y = Some (modules qr ! y)"
    and md: "nth_opt (modules qr ! y) x = Some (modules qr ! y ! x)"
    and fx: "mod_x (modules qr ! y ! x) = x" "mod_y (modules qr ! y ! x) = y"
    and ty: "\<not> is_fp (msize qr) (mversion qr) x y \<Longrightarrow> mod_type (modules qr ! y ! x) = DATA_CODEWORD"
    by (auto simp: grid_ok_def nth_opt_def)
  have rest: "set cs \<subseteq> set (cells (msize qr))" using Cons.prems by simp
  show ?case
  proof (cases "is_fp (msize qr) (mversion qr) x y")
    case True
    then have "flippable_step qr c (Inr acc) = Inr acc"
      by (simp add: flippable_step_def c row isFunctionPattern_is_fp)
    then show ?thesis using True Cons.IH [OF rest] by (simp add: c)
  next
    case False
    then have "flippable_step qr c (Inr acc)
               = Inr (acc @ [\<lparr>pos_x = x, pos_y = y, pos_index = length acc\<rparr>])"
      by (simp add: flippable_step_def c row md fx ty isFunctionPattern_is_fp)
    then show ?thesis using False Cons.IH [OF rest] by (simp add: c)
  qed
qed

lemma identifyFlippableModules_grid:
  assumes "grid_ok (msize qr) (mversion qr) (modules qr)"
  shows "identifyFlippableModules qr
         = Inr (positions_from 0 (flippable_cells (msize qr) (mversion qr)))"
  unfolding identifyFlippableModules_def flippable_cells_def
  using fold_flippable_step [OF assms, of "cells (msize qr)" "[]"] by simp

lemma determineModuleType_not_fp:
  "\<not> is_fp (qr_size qr) (qr_version qr) x y \<Longrightarrow> determineModuleType x y qr = DATA_CODEWORD"
  by (simp add: determineModuleType_def isFunctionPattern_is_fp)

lemma grid_ok_convertToQRMatrix:
  "grid_ok (qr_size qr) (qr_version qr) (modules (convertToQRMatrix qr))"
  by (simp add: grid_ok_def convertToQRMatrix_def determineModuleType_not_fp)

lemma grid_ok_convertToFullQRMatrix:
  "grid_ok (qr_size qr) (qr_version qr) (modules (convertToFullQRMatrix qr))"
  by (simp add: grid_ok_def convertToFullQRMatrix_def isFunctionPattern_is_fp Let_def)

lemma identify_convertToQRMatrix:
  "identifyFlippableModules (convertToQRMatrix qr) = Inr (flippable_positions qr)"
proof -
  have "msize (convertToQRMatrix qr) = qr_size qr" "mversion (convertToQRMatrix qr) = qr_version qr"
    by (simp_all add: convertToQRMatrix_def)
  then show ?thesis
    using identifyFlippableModules_grid [of "convertToQRMatrix qr"] grid_ok_convertToQRMatrix [of qr]
    by (simp add: flippable_positions_def)
qed

lemma identify_convertToFullQRMatrix:
  "identifyFlippableModules (convertToFullQRMatrix qr) = Inr (flippable_positions qr)"
proof -
  have "msize (convertToFullQRMatrix qr) = qr_size qr"
    "mversion (convertToFullQRMatrix qr) = qr_version qr"
    by (simp_all add: convertToFullQRMatrix_def)
  then show ?thesis
    using identifyFlippableModules_grid [of "convertToFullQRMatrix qr"]
      grid_ok_convertToFullQRMatrix [of qr]
    by (simp add: flippable_positions_def)
qed

lemma flippable_positions_length:
  "length (flippable_positions qr) = length (flippable_cells (qr_size qr) (qr_version qr))"
  by (simp add: flippable_positions_def)

lemma positions_ok_flippable: "positions_ok (qr_size qr) (qr_version qr) (flippable_positions qr)"
proof -
  let ?fc = "flippable_cells (qr_size qr) (qr_version qr)"
  have d: "distinct ?fc" by (simp add: flippable_cells_def distinct_cells)
  have m: "fst c < qr_size qr \<and> snd c < qr_size qr \<and> \<not> is_fp (qr_size qr) (qr_version qr) (fst c) (snd c)"
    if "c \<in> set ?fc" for c
    using that by (auto simp: flippable_cells_def set_cells)
  have n: "pos_x (flippable_positions qr ! k) = fst (?fc ! k)"
    "pos_y (flippable_positions qr ! k) = snd (?fc ! k)" if "k < length ?fc" for k
    using that by (simp_all add: flippable_positions_def positions_from_nth)
  show ?thesis
    unfolding positions_ok_def flippable_positions_length
  proof (intro conjI allI impI)
    fix k assume k: "k < length ?fc"
    then have "?fc ! k \<in> set ?fc" by simp
    from m [OF this] n [OF k]
    show "pos_x (flippable_positions qr ! k) < qr_size qr"
      "pos_y (flippable_positions qr ! k) < qr_size qr"
      "\<not> is_fp (qr_size qr) (qr_version qr) (pos_x (flippable_positions qr ! k))
            (pos_y (flippable_positions qr ! k))"
      by simp_all
  next
    fix i j assume ij: "i < length ?fc" "j < length ?fc"
      and e: "pos_x (flippable_positions qr ! i) = pos_x (flippable_positions qr ! j)
              \<and> pos_y (flippable_positions qr ! i) = pos_y (flippable_positions qr ! j)"
    then have "?fc ! i = ?fc ! j" using n [OF ij(1)] n [OF ij(2)] by (simp add: prod_eq_iff)
    then show "i = j" using d ij by (simp add: nth_eq_iff_index_eq)
  qed
qed

lemma shape_flip:
  assumes "shape sz ms" "x < sz" "y < sz"
  shows "shape sz (ms[y := (ms ! y)[x := m]])"
  using assms by (auto simp: shape_def nth_list_update)

lemma value_flip:
  assumes "shape sz ms" "x < sz" "y < sz" "x' < sz" "y' < sz"
  shows "mod_value (ms[y := (ms ! y)[x := (ms ! y ! x)\<lparr>mod_value := \<not> mod_value (ms ! y ! x)\<rparr>]] ! y' ! x')
         = (mod_value (ms ! y' ! x') \<noteq> (x' = x \<and> y' = y))"
  using assms by (auto simp: shape_def nth_list_update)

lemma fold_flip_step_Inl: "fold (flip_step qr ps) es (Inl e) = Inl e"
  by (induction es) (simp_all add: flip_step_def)

lemma fold_flip_step:
  assumes qr: "msize qr = sz" "mversion qr = v"
    and ok: "positions_ok sz v ps"
  shows "shape sz ms \<Longrightarrow> \<forall>e \<in> set es. fst e < length ps \<Longrightarrow> distinct (map fst es) \<Longrightarrow>
     \<exists>ms'. fold (flip_step qr ps) es (Inr (ms, cnt, sk))
              = Inr (ms', cnt + length (filter snd es), sk)
        \<and> shape sz ms'
        \<and> (\<forall>x < sz. \<forall>y < sz. mod_value (ms' ! y ! x)
              = (mod_value (ms ! y ! x)
                 \<noteq> (\<exists>e \<in> set es. snd e \<and> pos_x (ps ! fst e) = x \<and> pos_y (ps ! fst e) = y)))"
proof (induction es arbitrary: ms cnt)
  case Nil
  then show ?case by simp
next
  case (Cons e es)
  obtain k b where e: "e = (k, b)" by (cases e)
  from Cons.prems e have k: "k < length ps" by simp
  from ok k have px: "pos_x (ps ! k) < sz" and py: "pos_y (ps ! k) < sz"
    and nf: "\<not> is_fp sz v (pos_x (ps ! k)) (pos_y (ps ! k))"
    by (auto simp: positions_ok_def)
  have keys: "\<forall>e \<in> set es. fst e < length ps" and dist: "distinct (map fst es)"
    and fresh: "k \<notin> fst ` set es"
    using Cons.prems e by auto
  show ?case
  proof (cases b)
    case False
    have st: "flip_step qr ps (k, False) (Inr (ms, cnt, sk)) = Inr (ms, cnt, sk)"
      by (simp add: flip_step_def)
    from Cons.IH [OF Cons.prems(1) keys dist, of cnt]
    obtain ms' where r: "fold (flip_step qr ps) es (Inr (ms, cnt, sk))
              = Inr (ms', cnt + length (filter snd es), sk)" "shape sz ms'"
      "\<forall>x < sz. \<forall>y < sz. mod_value (ms' ! y ! x)
              = (mod_value (ms ! y ! x)
                 \<noteq> (\<exists>e \<in> set es. snd e \<and> pos_x (ps ! fst e) = x \<and> pos_y (ps ! fst e) = y))"
      by blast
    show ?thesis
      using r False by (intro exI [of _ ms']) (simp add: st e)
  next
    case True
    let ?x = "pos_x (ps ! k)" and ?y = "pos_y (ps ! k)"
    let ?ms1 = "ms[?y := (ms ! ?y)[?x := (ms ! ?y ! ?x)\<lparr>mod_value := \<not> mod_value (ms ! ?y ! ?x)\<rparr>]]"
    have rows: "nth_opt ms ?y = Some (ms ! ?y)" "nth_opt (ms ! ?y) ?x = Some (ms ! ?y ! ?x)"
      using Cons.prems(1) px py by (auto simp: shape_def nth_opt_def)
    have st: "flip_step qr ps (k, True) (Inr (ms, cnt, sk)) = Inr (?ms1, cnt + 1, sk)"
      using k nf
      by (simp add: flip_step_def nth_opt_def [of ps] rows isFunctionPattern_is_fp qr)
    have sh1: "shape sz ?ms1" using Cons.prems(1) px py by (rule shape_flip)
    from Cons.IH [OF sh1 keys dist, of "cnt + 1"]
    obtain ms' where r: "fold (flip_step qr ps) es (Inr (?ms1, cnt + 1, sk))
              = Inr (ms', cnt + 1 + length (filter snd es), sk)" "shape sz ms'"
      and v: "\<And>x y. x < sz \<Longrightarrow> y < sz \<Longrightarrow> mod_value (ms' ! y ! x)
              = (mod_value (?ms1 ! y ! x)
                 \<noteq> (\<exists>e \<in> set es. snd e \<and> pos_x (ps ! fst e) = x \<and> pos_y (ps ! fst e) = y))"
      by blast
    have excl: "\<not> (\<exists>e \<in> set es. snd e \<and> pos_x (ps ! fst e) = ?x \<and> pos_y (ps ! fst e) = ?y)"
    proof
      assume "\<exists>e \<in> set es. snd e \<and> pos_x (ps ! fst e) = ?x \<and> pos_y (ps ! fst e) = ?y"
      then obtain e' where e': "e' \<in> set es" "pos_x (ps ! fst e') = ?x" "pos_y (ps ! fst e') = ?y"
        by blast
      then have "fst e' < length ps" using keys by blast
      with ok k e'(2,3) have "fst e' = k" unfolding positions_ok_def by blast
      with e'(1) fresh show False by force
    qed
    have "mod_value (ms' ! y ! x)
          = (mod_value (ms ! y ! x)
             \<noteq> (\<exists>e \<in> set (e # es). snd e \<and> pos_x (ps ! fst e) = x \<and> pos_y (ps ! fst e) = y))"
      if xy: "x < sz" "y < sz" for x y
    proof -
      have "mod_value (?ms1 ! y ! x) = (mod_value (ms ! y ! x) \<noteq> (x = ?x \<and> y = ?y))"
        using Cons.prems(1) px py xy by (rule value_flip)
      with v [OF xy] excl True show ?thesis by (auto simp: e)
    qed
    then show ?thesis
      using r True by (intro exI [of _ ms']) (simp add: st e)
  qed
qed

lemma update_fresh: "k \<notin> fst ` set al \<Longrightarrow> AList.update k v al = al @ [(k, v)]"
  by (induction al) auto

lemma fold_update_zip_take:
  assumes "distinct idx" "length idx = length bits" "n \<le> length bits"
  shows "fold (\<lambda>i enc. AList.update (idx ! i) (bits ! i) enc) [0..<n] []
         = zip (take n idx) (take n bits)"
  using assms(3)
proof (induction n)
  case 0
  then show ?case by simp
next
  case (Suc n)
  then have n: "n < length bits" "n < length idx" using assms(2) by simp_all
  have fresh: "idx ! n \<notin> fst ` set (zip (take n idx) (take n bits))"
  proof
    assume "idx ! n \<in> fst ` set (zip (take n idx) (take n bits))"
    then have "idx ! n \<in> set (take n idx)" by (auto dest: set_zip_leftD)
    then obtain j where "j < n" "idx ! j = idx ! n" using n(2) by (auto simp: in_set_conv_nth)
    then show False using assms(1) n(2) by (simp add: nth_eq_iff_index_eq)
  qed
  have "fold (\<lambda>i enc. AList.update (idx ! i) (bits ! i) enc) [0..<Suc n] []
        = AList.update (idx ! n) (bits ! n) (zip (take n idx) (take n bits))"
    using Suc by simp
  also have "\<dots> = zip (take n idx) (take n bits) @ [(idx ! n, bits ! n)]"
    using fresh by (rule update_fresh)
  also have "\<dots> = zip (take (Suc n) idx) (take (Suc n) bits)"
    using n by (simp add: take_Suc_conv_app_nth)
  finally show ?case .
qed

lemma fold_update_zip:
  assumes "distinct idx" "length idx = length bits"
  shows "fold (\<lambda>i enc. AList.update (idx ! i) (bits ! i) enc) [0..<length bits] [] = zip idx bits"
  using fold_update_zip_take [OF assms, of "length bits"] assms(2) by simp

lemma fold_compare_step:
  assumes "length scanned = sz" "length reference = sz"
    and "\<forall>i \<in> set is. pos_y (ps ! i) < sz"
  shows "fold (compare_step scanned reference ps) is (Inr acc)
         = Inr (acc @ filter (\<lambda>i. nth_opt (scanned ! pos_y (ps ! i)) (pos_x (ps ! i))
                                  \<noteq> nth_opt (reference ! pos_y (ps ! i)) (pos_x (ps ! i))) is)"
  using assms(3)
proof (induction "is" arbitrary: acc)
  case Nil
  then show ?case by simp
next
  case (Cons i "is")
  then have y: "pos_y (ps ! i) < sz" by simp
  have "compare_step scanned reference ps i (Inr acc)
        = Inr (if nth_opt (scanned ! pos_y (ps ! i)) (pos_x (ps ! i))
                  \<noteq> nth_opt (reference ! pos_y (ps ! i)) (pos_x (ps ! i))
               then acc @ [i] else acc)"
    using y assms(1,2) by (simp add: compare_step_def nth_opt_def Let_def)
  then show ?case using Cons by simp
qed

lemma extract_loop_eq:
  "extract_loop k t s c fp acc = acc @ map (\<lambda>i. (c + i * s) mod t \<in> set fp) [0..<k]"
proof (induction k arbitrary: c acc)
  case 0
  then show ?case by simp
next
  case (Suc k)
  have "map (\<lambda>i. (c + i * s) mod t \<in> set fp) [0..<Suc k]
        = (c mod t \<in> set fp) # map (\<lambda>i. (c + Suc i * s) mod t \<in> set fp) [0..<k]"
    by (simp add: upt_conv_Cons map_Suc_upt [symmetric] del: upt_Suc)
  moreover have "((c + s) mod t + i * s) mod t = (c + Suc i * s) mod t" for i
  proof -
    have "((c + s) mod t + i * s) mod t = ((c + s) + i * s) mod t"
      by (rule mod_add_left_eq)
    also have "(c + s) + i * s = c + Suc i * s" by simp
    finally show ?thesis .
  qed
  ultimately show ?case
    by (simp add: Suc.IH del: upt_Suc)
qed

text \<open>What the decoder reads back when the flipped indices are those of the true bits.\<close>

lemma extractBitsFromFlips_frame:
  assumes t: "length ps = t" and cp: "coprime (findLargePrime t) t"
    and n: "length bits = 32 + 8 * len" "length bits \<le> t"
    and rd: "read_bits bits 0 16 = len"
    and fp: "set fp = {(j * findLargePrime t) mod t | j. j < length bits \<and> bits ! j}"
  shows "extractBitsFromFlips fp ps = bits"
proof -
  let ?s = "findLargePrime t"
  have mem: "((i * ?s) mod t \<in> set fp) = bits ! i" if "i < length bits" for i
  proof
    assume "(i * ?s) mod t \<in> set fp"
    then obtain j where j: "j < length bits" "bits ! j" "(i * ?s) mod t = (j * ?s) mod t"
      unfolding fp by auto
    have "i = j" using cp _ _ j(3)
    proof (rule prime_step_inj)
      show "i < t" using that n(2) by simp
      show "j < t" using j(1) n(2) by simp
    qed
    with j(2) show "bits ! i" by simp
  next
    assume "bits ! i"
    with that show "(i * ?s) mod t \<in> set fp" unfolding fp by auto
  qed
  have first: "extract_loop 16 t ?s 0 fp [] = take 16 bits"
  proof (rule nth_equalityI)
    show "length (extract_loop 16 t ?s 0 fp []) = length (take 16 bits)"
      using n(1) by (simp add: extract_loop_eq)
  next
    fix i assume "i < length (extract_loop 16 t ?s 0 fp [])"
    then have i: "i < 16" by (simp add: extract_loop_eq)
    then have "i < length bits" using n(1) by simp
    then show "extract_loop 16 t ?s 0 fp [] ! i = take 16 bits ! i"
      using i mem by (simp add: extract_loop_eq)
  qed
  have "read_bits (take 16 bits) 0 16 = read_bits bits 0 16"
    by (rule read_bits_cong) (simp add: bit_at_def)
  then have len: "read_bits (extract_loop 16 t ?s 0 fp []) 0 16 = len"
    using first rd by simp
  have "extract_loop (16 + len * 8 + 16) t ?s 0 fp [] = bits"
  proof (rule nth_equalityI)
    show "length (extract_loop (16 + len * 8 + 16) t ?s 0 fp []) = length bits"
      using n(1) by (simp add: extract_loop_eq)
  next
    fix i assume "i < length (extract_loop (16 + len * 8 + 16) t ?s 0 fp [])"
    then have i: "i < 16 + len * 8 + 16" by (simp add: extract_loop_eq)
    then have "i < length bits" using n(1) by simp
    then show "extract_loop (16 + len * 8 + 16) t ?s 0 fp [] ! i = bits ! i"
      using i mem by (simp add: extract_loop_eq del: upt_Suc)
  qed
  then show ?thesis
    using len t by (simp add: extractBitsFromFlips_def Let_def)
qed

lemma shape_convertToQRMatrix: "shape (qr_size qr) (modules (convertToQRMatrix qr))"
  by (simp add: shape_def convertToQRMatrix_def)

lemma value_convertToQRMatrix:
  "x < qr_size qr \<Longrightarrow> y < qr_size qr \<Longrightarrow>
   mod_value (modules (convertToQRMatrix qr) ! y ! x) = qr_getModule qr x y"
  by (simp add: convertToQRMatrix_def)

lemma createFlipMap_zip:
  assumes "length bits \<le> length ps" "coprime (findLargePrime (length ps)) (length ps)"
  shows "createFlipMap bits ps
         = Inr \<lparr>positions = ps,
                encoding = zip (map (\<lambda>i. (i * findLargePrime (length ps)) mod length ps)
                                  [0..<length bits]) bits\<rparr>"
proof -
  let ?idx = "map (\<lambda>i. (i * findLargePrime (length ps)) mod length ps) [0..<length bits]"
  have d: "distinct ?idx" using assms(2,1) by (rule prime_step_distinct)
  have "fold (\<lambda>i enc. AList.update (?idx ! i) (bits ! i) enc) [0..<length bits] [] = zip ?idx bits"
    using d by (rule fold_update_zip) simp
  then show ?thesis
    using assms(1) by (simp add: createFlipMap_def generateDistributionPattern_eq)
qed

text \<open>The encoder's flips and the decoder's comparison, for any bit vector that fits.\<close>

lemma flips_then_compare:
  fixes qr :: QrCode and bits :: "bool list"
  defines "ps \<equiv> flippable_positions qr"
  defines "t \<equiv> length (flippable_positions qr)"
  defines "idx \<equiv> map (\<lambda>i. (i * findLargePrime t) mod t) [0..<length bits]"
  assumes n: "length bits \<le> t"
    and cp: "coprime (findLargePrime t) t"
  shows "\<exists>m fp. applyFlips (convertToQRMatrix qr) \<lparr>positions = ps, encoding = zip idx bits\<rparr> = Inr m
      \<and> flippedModuleCount m = Some (length (filter (\<lambda>b. b) bits))
      \<and> msize m = qr_size qr
      \<and> (bits = [] \<longrightarrow> modules m = modules (convertToQRMatrix qr))
      \<and> compareMatrices (getModules m) (qrToModuleMatrix qr) ps = Inr fp
      \<and> set fp = {(j * findLargePrime t) mod t | j. j < length bits \<and> bits ! j}"
proof -
  let ?sz = "qr_size qr" and ?v = "qr_version qr"
  let ?base = "convertToQRMatrix qr"
  let ?es = "zip idx bits"
  have lidx: "length idx = length bits" by (simp add: idx_def)
  have idxn: "idx ! j = (j * findLargePrime t) mod t" if "j < length bits" for j
    using that by (simp add: idx_def)
  have tpos: "0 < t" if "j < length bits" for j using that n by simp
  have idxlt: "idx ! j < t" if "j < length bits" for j
    using that tpos [OF that] by (simp add: idxn)
  have ok: "positions_ok ?sz ?v ps" unfolding ps_def by (rule positions_ok_flippable)
  have lps: "length ps = t" by (simp add: ps_def t_def)
  have d: "distinct idx" unfolding idx_def using cp n by (rule prime_step_distinct)
  have keys: "\<forall>e \<in> set ?es. fst e < length ps"
  proof
    fix e assume "e \<in> set ?es"
    then obtain j where "j < length bits" "e = (idx ! j, bits ! j)"
      using lidx by (auto simp: set_zip)
    then show "fst e < length ps" using idxlt lps by simp
  qed
  have dk: "distinct (map fst ?es)" using d lidx by simp
  have q: "msize ?base = ?sz" "mversion ?base = ?v" by (simp_all add: convertToQRMatrix_def)
  from fold_flip_step [OF q ok shape_convertToQRMatrix keys dk, of 0 0]
  obtain ms' where f: "fold (flip_step ?base ps) ?es (Inr (modules ?base, 0, 0))
              = Inr (ms', length (filter snd ?es), 0)"
    and sh: "shape ?sz ms'"
    and val: "\<And>x y. x < ?sz \<Longrightarrow> y < ?sz \<Longrightarrow> mod_value (ms' ! y ! x)
              = (mod_value (modules ?base ! y ! x)
                 \<noteq> (\<exists>e \<in> set ?es. snd e \<and> pos_x (ps ! fst e) = x \<and> pos_y (ps ! fst e) = y))"
    by auto
  let ?m = "?base\<lparr>modules := ms', flippedModuleCount := Some (length (filter snd ?es))\<rparr>"
  have ap: "applyFlips ?base \<lparr>positions = ps, encoding = ?es\<rparr> = Inr ?m"
    by (simp add: applyFlips_def f)
  have cnt: "length (filter snd ?es) = length (filter (\<lambda>b. b) bits)"
  proof -
    have "filter (\<lambda>b. b) bits = filter (\<lambda>b. b) (map snd ?es)" using lidx by simp
    also have "\<dots> = map snd (filter snd ?es)" by (simp add: filter_map comp_def)
    finally show ?thesis by simp
  qed
  have empty: "modules ?m = modules ?base" if "bits = []"
    using f that by simp
  have scan: "length (getModules ?m) = ?sz" using sh by (simp add: getModules_def shape_def)
  have refl: "length (qrToModuleMatrix qr) = ?sz" by (simp add: qrToModuleMatrix_def)
  have py: "\<forall>i \<in> set [0..<length ps]. pos_y (ps ! i) < ?sz"
    using ok by (simp add: positions_ok_def)
  let ?differs = "\<lambda>i. nth_opt (getModules ?m ! pos_y (ps ! i)) (pos_x (ps ! i))
                       \<noteq> nth_opt (qrToModuleMatrix qr ! pos_y (ps ! i)) (pos_x (ps ! i))"
  have cm: "compareMatrices (getModules ?m) (qrToModuleMatrix qr) ps
            = Inr (filter ?differs [0..<length ps])"
    using fold_compare_step [OF scan refl py, of "[]"] scan refl
    by (simp add: compareMatrices_def)
  have diff: "?differs i = (\<exists>j < length bits. bits ! j \<and> idx ! j = i)" if i: "i < length ps" for i
  proof -
    let ?x = "pos_x (ps ! i)" and ?y = "pos_y (ps ! i)"
    from ok i have xy: "?x < ?sz" "?y < ?sz" by (auto simp: positions_ok_def)
    have s: "nth_opt (getModules ?m ! ?y) ?x = Some (mod_value (ms' ! ?y ! ?x))"
      using sh xy by (simp add: getModules_def shape_def nth_opt_def)
    have r: "nth_opt (qrToModuleMatrix qr ! ?y) ?x = Some (qr_getModule qr ?x ?y)"
      using xy by (simp add: qrToModuleMatrix_def nth_opt_def)
    have "?differs i = (mod_value (ms' ! ?y ! ?x) \<noteq> qr_getModule qr ?x ?y)"
      by (simp add: s r)
    also have "\<dots> = (\<exists>e \<in> set ?es. snd e \<and> pos_x (ps ! fst e) = ?x \<and> pos_y (ps ! fst e) = ?y)"
      unfolding val [OF xy] value_convertToQRMatrix [OF xy] by blast
    also have "\<dots> = (\<exists>j < length bits. bits ! j \<and> idx ! j = i)"
    proof
      assume "\<exists>e \<in> set ?es. snd e \<and> pos_x (ps ! fst e) = ?x \<and> pos_y (ps ! fst e) = ?y"
      then obtain j where j: "j < length bits" "bits ! j"
        "pos_x (ps ! (idx ! j)) = ?x" "pos_y (ps ! (idx ! j)) = ?y"
        using lidx by (auto simp: set_zip)
      have "idx ! j < length ps" using idxlt [OF j(1)] lps by simp
      with ok i j(3,4) have "idx ! j = i" unfolding positions_ok_def by blast
      with j show "\<exists>j < length bits. bits ! j \<and> idx ! j = i" by blast
    next
      assume "\<exists>j < length bits. bits ! j \<and> idx ! j = i"
      then obtain j where j: "j < length bits" "bits ! j" "idx ! j = i" by blast
      then have "(idx ! j, bits ! j) \<in> set ?es" using lidx by (auto simp: set_zip)
      with j show "\<exists>e \<in> set ?es. snd e \<and> pos_x (ps ! fst e) = ?x \<and> pos_y (ps ! fst e) = ?y"
        by force
    qed
    finally show ?thesis .
  qed
  have fpset: "set (filter ?differs [0..<length ps])
               = {(j * findLargePrime t) mod t | j. j < length bits \<and> bits ! j}"
  proof (intro set_eqI iffI)
    fix i assume "i \<in> set (filter ?differs [0..<length ps])"
    then have i: "i < length ps" "?differs i" by auto
    with diff obtain j where "j < length bits" "bits ! j" "idx ! j = i" by blast
    then show "i \<in> {(j * findLargePrime t) mod t | j. j < length bits \<and> bits ! j}"
      using idxn by auto
  next
    fix i assume "i \<in> {(j * findLargePrime t) mod t | j. j < length bits \<and> bits ! j}"
    then obtain j where j: "j < length bits" "bits ! j" "i = idx ! j" using idxn by auto
    then have i: "i < length ps" using idxlt lps by simp
    with diff j have "?differs i" by blast
    with i show "i \<in> set (filter ?differs [0..<length ps])" by simp
  qed
  show ?thesis
    using ap cnt empty cm fpset q(1)
    by (intro exI [of _ ?m] exI [of _ "filter ?differs [0..<length ps]"]) simp
qed

lemma length_cells: "length (cells sz) = sz * sz"
  by (simp add: cells_def length_concat comp_def sum_list_triv)

lemma flippable_cells_upper: "length (flippable_cells sz v) \<le> sz * sz"
  unfolding flippable_cells_def using length_filter_le [of _ "cells sz"] by (simp add: length_cells)

lemma centre_not_fp:
  assumes "21 \<le> sz" "9 \<le> x" "x \<le> 12" "9 \<le> y" "y \<le> 12"
  shows "\<not> is_fp sz v x y"
  using assms
  by (auto simp: is_fp_def isInFinderPattern_def isInTimingPattern_def isInAlignmentPattern_def
      isInFormatInfo_def isInVersionInfo_def ALIGNMENT_PATTERN_POSITIONS_def Let_def)

lemma flippable_cells_lower:
  assumes "21 \<le> sz"
  shows "16 \<le> length (flippable_cells sz v)"
proof -
  let ?A = "{9..12} \<times> {9..12} :: (nat \<times> nat) set"
  have "?A \<subseteq> set (flippable_cells sz v)"
    using assms by (auto simp: flippable_cells_def set_cells centre_not_fp)
  then have "card ?A \<le> card (set (flippable_cells sz v))" by (intro card_mono) auto
  moreover have "card (set (flippable_cells sz v)) = length (flippable_cells sz v)"
    by (intro distinct_card) (simp add: flippable_cells_def distinct_cells)
  moreover have "card ?A = 16" by (simp add: card_cartesian_product)
  ultimately show ?thesis by simp
qed

lemma wf_flippable_bounds:
  assumes "wf_qr qr"
  shows "16 \<le> length (flippable_positions qr)" "length (flippable_positions qr) \<le> 31329"
proof -
  from assms have sz: "21 \<le> qr_size qr" "qr_size qr \<le> 177" by (auto simp: wf_qr_def)
  show "16 \<le> length (flippable_positions qr)"
    using flippable_cells_lower [OF sz(1)] by (simp add: flippable_positions_length)
  have "qr_size qr * qr_size qr \<le> 177 * 177" using sz(2) by (intro mult_le_mono)
  then show "length (flippable_positions qr) \<le> 31329"
    using flippable_cells_upper [of "qr_size qr" "qr_version qr"]
    by (simp add: flippable_positions_length)
qed

lemma encode_unfold:
  assumes "encodeText primary (mapECLevel (options_ecLevel options)) = Some qr"
  shows "encode encodeText primary secondary options =
     (if flippable_positions qr = [] then Inl MatrixTooSmall
      else if js_le (calculateMaxCapacity (flippable_positions qr) (options_ecLevel options)
                       (options_safetyMargin options)) (Num 0) then Inl InsufficientCapacity
      else (case (if length secondary > 0
                  then encodeSecondaryMessage secondary
                         (calculateMaxCapacity (flippable_positions qr) (options_ecLevel options)
                            (options_safetyMargin options))
                  else Inr []) of
              Inl e \<Rightarrow> Inl e
            | Inr secondaryBits \<Rightarrow>
                (case createFlipMap secondaryBits (flippable_positions qr) of
                   Inl e \<Rightarrow> Inl e
                 | Inr flipMap \<Rightarrow> applyFlips (convertToQRMatrix qr) flipMap)))"
  using assms
  by (simp add: encode_def options_ecLevel_def options_safetyMargin_def
      identify_convertToQRMatrix Let_def)

lemma decode_unfold:
  assumes "encodeText primary H = Some qr"
  shows "decodeFromMatrix encodeText scanned primary =
     (case compareMatrices scanned (qrToModuleMatrix qr) (flippable_positions qr) of
        Inl e \<Rightarrow> Inl e
      | Inr flipPositions \<Rightarrow>
          if flipPositions = []
          then Inr \<lparr>primaryMessage = primary, secondaryMessage = [],
                    metadata = \<lparr>meta_version = ascii ''1.0'', meta_flippedModuleCount = 0,
                                ecLevelUsed = H, capacityUsed = Num 0\<rparr>\<rparr>
          else (case decodeSecondaryMessage
                       (extractBitsFromFlips flipPositions (flippable_positions qr)) of
                  Inl e \<Rightarrow> Inl e
                | Inr secondary \<Rightarrow>
                    Inr \<lparr>primaryMessage = primary, secondaryMessage = secondary,
                         metadata =
                           \<lparr>meta_version = ascii ''1.0'',
                            meta_flippedModuleCount = length flipPositions,
                            ecLevelUsed = H,
                            capacityUsed =
                              js_mul (js_div (Num (of_nat (length flipPositions)))
                                        (Num (of_nat (length (flippable_positions qr)))))
                                (Num 100)\<rparr>\<rparr>))"
  using assms
  by (simp add: decodeFromMatrix_def identify_convertToFullQRMatrix Let_def
      split: sum.splits)

lemma getCapacity_unfold:
  assumes "encodeText primary H = Some qr"
  shows "getCapacity encodeText primary safetyMargin
         = Inr (js_max (Num 0)
                  (js_floor (js_div (js_sub (calculateMaxCapacity (flippable_positions qr) H
                                               safetyMargin) (Num 32)) (Num 8))))"
  using assms by (simp add: getCapacity_def identify_convertToQRMatrix Let_def)

lemma js_max_Num [simp]: "js_max (Num a) (Num b) = Num (max a b)"
  by (simp add: js_max_def max_def)

lemma getCapacity_default:
  assumes "encodeText primary H = Some qr" "wf_qr qr"
  shows "getCapacity encodeText primary DEFAULT_SAFETY_MARGIN
         = Inr (Num (of_int (max 0
                  ((int (default_max_bits (length (flippable_positions qr))) - 32) div 8))))"
proof -
  let ?t = "length (flippable_positions qr)"
  from wf_flippable_bounds [OF assms(2)] have t: "?t \<le> 31329" by simp
  have "default_max_bits ?t \<le> ?t" by (rule default_max_bits_le)
  with t have B: "default_max_bits ?t \<le> 31329" by simp
  show ?thesis
    unfolding getCapacity_unfold [where encodeText = encodeText and primary = primary
        and qr = qr, OF assms(1)] calculateMaxCapacity_default [OF t] capacity_bytes [OF B]
    by simp
qed

lemma read_bits_nonzero:
  assumes "read_bits bits start n \<noteq> 0"
  shows "\<exists>j. start + j < length bits \<and> bits ! (start + j)"
proof (rule ccontr)
  assume a: "\<not> (\<exists>j. start + j < length bits \<and> bits ! (start + j))"
  have "read_bits bits start n = 0"
  proof (rule bit_eqI)
    fix k
    show "bit (read_bits bits start n) k = bit (0 :: nat) k"
      using a by (simp add: bit_read_bits bit_at_def)
  qed
  with assms show False by simp
qed

lemma mapECLevel_id [simp]: "mapECLevel e = e"
  by (cases e) (simp_all add: mapECLevel_def)

lemma default_options_simps [simp]:
  "options_ecLevel default_options = H"
  "options_safetyMargin default_options = DEFAULT_SAFETY_MARGIN"
  by (simp_all add: default_options_def options_ecLevel_def options_safetyMargin_def)

text \<open>Encoding with the default options, then decoding the module matrix.\<close>

lemma encode_then_decode:
  assumes eng: "encodeText primary H = Some qr" and wf: "wf_qr qr"
    and cap: "int (length (TextEncoder_encode secondary))
              \<le> max 0 ((int (default_max_bits (length (flippable_positions qr))) - 32) div 8)"
  shows "\<exists>m payload. encode encodeText primary secondary default_options = Inr m
     \<and> decodeFromMatrix encodeText (getModules m) primary = Inr payload
     \<and> secondaryMessage payload = TextDecoder_decode (TextEncoder_encode secondary)
     \<and> primaryMessage payload = primary"
proof -
  let ?ps = "flippable_positions qr"
  let ?t = "length ?ps"
  let ?B = "default_max_bits ?t"
  let ?s = "findLargePrime ?t"
  let ?bs = "TextEncoder_encode secondary"
  from wf_flippable_bounds [OF wf] have t: "16 \<le> ?t" "?t \<le> 31329" .
  have M: "calculateMaxCapacity ?ps H DEFAULT_SAFETY_MARGIN = Num (of_nat ?B)"
    using t(2) by (rule calculateMaxCapacity_default)
  have cp: "coprime ?s ?t" using t by (intro findLargePrime_coprime) simp_all
  have Mpos: "0 < ?B" using t(1) by (intro default_max_bits_pos) simp
  have Mle: "?B \<le> ?t" by (rule default_max_bits_le)
  have ne: "?ps \<noteq> []" using t(1) by auto
  define bits where "bits = (if secondary = [] then [] else frame ?bs)"
  have fit: "32 + length ?bs * 8 \<le> ?B" if "secondary \<noteq> []"
  proof -
    from that have "?bs \<noteq> []" by simp
    then have "1 \<le> int (length ?bs)" by (cases ?bs) simp_all
    with cap have "int (length ?bs) \<le> (int ?B - 32) div 8" by simp
    then show ?thesis by linarith
  qed
  have enc_bits: "encodeSecondaryMessage secondary (Num (of_nat ?B)) = Inr bits"
    if "secondary \<noteq> []"
  proof -
    have "\<not> js_gt (Num (of_nat (32 + length ?bs * 8))) (Num (of_nat ?B))"
      using fit [OF that] by (simp only: js_gt_Num of_nat_less_iff not_less)
    then have "encodeSecondaryMessage secondary (Num (of_nat ?B)) = Inr (frame ?bs)"
      by (rule encodeSecondaryMessage_frame)
    then show ?thesis using that by (simp add: bits_def)
  qed
  have enc_nil: "bits = []" if "secondary = []"
    using that by (simp add: bits_def)
  have lb: "length bits \<le> ?t"
  proof (cases "secondary = []")
    case True
    then show ?thesis by (simp add: bits_def)
  next
    case False
    with fit Mle show ?thesis by (simp add: bits_def frame_length)
  qed
  from flips_then_compare [OF lb cp]
  obtain m fp where ap: "applyFlips (convertToQRMatrix qr)
        \<lparr>positions = ?ps,
         encoding = zip (map (\<lambda>i. (i * ?s) mod ?t) [0..<length bits]) bits\<rparr> = Inr m"
    and cm: "compareMatrices (getModules m) (qrToModuleMatrix qr) ?ps = Inr fp"
    and fps: "set fp = {(j * ?s) mod ?t | j. j < length bits \<and> bits ! j}"
    by blast
  have nle: "\<not> js_le (Num (of_nat ?B)) (Num 0)" using Mpos by simp
  have en: "encode encodeText primary secondary default_options = Inr m"
  proof (cases "secondary = []")
    case True
    then have b0: "bits = []" by (rule enc_nil)
    from ap b0 have ap0: "applyFlips (convertToQRMatrix qr)
        \<lparr>positions = ?ps, encoding = []\<rparr> = Inr m" by simp
    from createFlipMap_zip [OF lb cp] b0
    have cf0: "createFlipMap [] ?ps = Inr \<lparr>positions = ?ps, encoding = []\<rparr>" by simp
    show ?thesis
      using eng ne nle True by (simp add: encode_unfold [where qr = qr] M cf0 ap0)
  next
    case False
    show ?thesis
      using eng ne nle False
      by (simp add: encode_unfold [where qr = qr] M enc_bits createFlipMap_zip [OF lb cp] ap)
  qed
  show ?thesis
  proof (cases "secondary = []")
    case True
    then have "fp = []" using fps by (simp add: bits_def)
    then have "decodeFromMatrix encodeText (getModules m) primary
               = Inr \<lparr>primaryMessage = primary, secondaryMessage = [],
                      metadata = \<lparr>meta_version = ascii ''1.0'', meta_flippedModuleCount = 0,
                                  ecLevelUsed = H, capacityUsed = Num 0\<rparr>\<rparr>"
      by (simp add: decode_unfold [where encodeText = encodeText and primary = primary and qr = qr, OF eng] cm)
    with en True show ?thesis by (simp add: TextEncoder_encode_def)
  next
    case False
    have b: "bits = frame ?bs" using False by (simp add: bits_def)
    have len: "length ?bs < 65536" using fit [OF False] Mle t(2) by simp
    have rd: "read_bits bits 0 16 = length ?bs" unfolding b using len by (rule read_frame_length)
    have "?bs \<noteq> []" using False by simp
    then have "read_bits bits 0 16 \<noteq> 0" using rd by simp
    then obtain j where j: "j < length bits" "bits ! j"
      using read_bits_nonzero [of bits 0 16] by auto
    then have "(j * ?s) mod ?t \<in> set fp" unfolding fps by blast
    then have fpne: "fp \<noteq> []" by auto
    have ex: "extractBitsFromFlips fp ?ps = bits"
    proof (rule extractBitsFromFlips_frame [OF refl cp _ lb rd fps])
      show "length bits = 32 + 8 * length ?bs" by (simp add: b frame_length)
    qed
    have dec: "decodeSecondaryMessage bits = Inr (TextDecoder_decode ?bs)"
      unfolding b using len by (rule decode_frame)
    have "decodeFromMatrix encodeText (getModules m) primary
          = Inr \<lparr>primaryMessage = primary, secondaryMessage = TextDecoder_decode ?bs,
                 metadata = \<lparr>meta_version = ascii ''1.0'', meta_flippedModuleCount = length fp,
                             ecLevelUsed = H,
                             capacityUsed = js_mul (js_div (Num (of_nat (length fp)))
                                                      (Num (of_nat ?t))) (Num 100)\<rparr>\<rparr>"
      using fpne by (simp add: decode_unfold [where encodeText = encodeText and primary = primary and qr = qr, OF eng] cm ex dec)
    with en show ?thesis by simp
  qed
qed

lemma flip_step_error:
  "flip_step qr ps entry acc = Inl e \<Longrightarrow> acc = Inl e \<or> e = TypeError"
  by (auto simp: flip_step_def split: sum.splits prod.splits if_splits option.splits)

lemma fold_flip_step_error:
  "fold (flip_step qr ps) es acc = Inl e \<Longrightarrow> acc = Inl e \<or> e = TypeError"
proof (induction es arbitrary: acc)
  case Nil
  then show ?case by simp
next
  case (Cons x es)
  then have "flip_step qr ps x acc = Inl e \<or> e = TypeError" by simp
  then show ?case using flip_step_error by blast
qed

lemma applyFlips_error: "applyFlips qr flipMap = Inl e \<Longrightarrow> e = TypeError"
proof -
  assume a: "applyFlips qr flipMap = Inl e"
  then have "fold (flip_step qr (positions flipMap)) (encoding flipMap) (Inr (modules qr, 0, 0)) = Inl e"
    by (simp add: applyFlips_def split: sum.splits prod.splits)
  then show ?thesis using fold_flip_step_error by blast
qed

lemma createFlipMap_error: "createFlipMap bits ps = Inl e \<Longrightarrow> \<exists>a b. e = CapacityExceeded a b"
  by (auto simp: createFlipMap_def generateDistributionPattern_def split: if_splits sum.splits)

lemma encodeSecondaryMessage_error:
  "encodeSecondaryMessage m maxBits = Inl e \<Longrightarrow> \<exists>a b. e = PayloadTooLarge a b"
  by (auto simp: encodeSecondaryMessage_def Let_def split: if_splits)

lemma createFlipMap_Nil:
  "createFlipMap [] ps = Inr \<lparr>positions = ps, encoding = []\<rparr>"
  by (simp add: createFlipMap_def generateDistributionPattern_def)

lemma applyFlips_Nil:
  "applyFlips qr \<lparr>positions = ps, encoding = []\<rparr> = Inr (qr\<lparr>flippedModuleCount := Some 0\<rparr>)"
  by (simp add: applyFlips_def)

lemma getModules_convertToQRMatrix:
  "getModules (convertToQRMatrix qr) = qrToModuleMatrix qr"
  by (simp add: getModules_def convertToQRMatrix_def qrToModuleMatrix_def comp_def)

lemma compare_unflipped:
  "compareMatrices (qrToModuleMatrix qr) (qrToModuleMatrix qr) (flippable_positions qr) = Inr []"
proof -
  have l: "length (qrToModuleMatrix qr) = qr_size qr" by (simp add: qrToModuleMatrix_def)
  have py: "\<forall>i \<in> set [0..<length (flippable_positions qr)].
              pos_y (flippable_positions qr ! i) < qr_size qr"
    using positions_ok_flippable [of qr] by (simp add: positions_ok_def)
  show ?thesis
    using fold_compare_step [OF l l py, of "[]"] by (simp add: compareMatrices_def)
qed

lemma sample_cells: "length (flippable_cells 25 2) = 351"
  by code_simp

lemma sample_length: "length (flippable_positions sample_qr) = 351"
  by (simp add: flippable_positions_length sample_qr_def sample_cells)

lemma sample_wf: "wf_qr sample_qr"
  by (simp add: wf_qr_def sample_qr_def)

lemma sample_capacity:
  "getCapacity sample_engine primary DEFAULT_SAFETY_MARGIN = Inr (Num 3)"
proof -
  have "sample_engine primary H = Some sample_qr" by (simp add: sample_engine_def)
  from getCapacity_default [where encodeText = sample_engine and primary = primary
      and qr = sample_qr, OF this sample_wf] show ?thesis
    by (simp add: sample_length default_max_bits_def)
qed

lemma sample_low_margin:
  "calculateMaxCapacity (flippable_positions sample_qr) H (to_double (3 / 100)) = Num 23"
proof -
  have 1: "js_floor (js_mul (Num 351) (to_double (3 / 100))) = Num 10"
    by (simp add: margin_3_value js_mul_def js_floor_def to_double_def ilog2_def pow2_def
        round_even_def Let_def)
  have 2: "js_floor (js_div (Num 10) BIT_DENSITY) = Num 23"
    by (simp add: BIT_DENSITY_value js_div_def js_floor_def to_double_def ilog2_def pow2_def
        round_even_def Let_def)
  show ?thesis
    by (simp add: calculateMaxCapacity_def sample_length 1 2)
qed

lemma js_le_not_gt: "js_le a b \<Longrightarrow> \<not> js_gt a b"
  by (cases a; cases b) (simp_all add: js_le_def js_gt_def)

lemma TextEncoder_ascii_length:
  "\<forall>c \<in> set s. unat c < 0x80 \<Longrightarrow> length (TextEncoder_encode s) = length s"
  by (simp add: TextEncoder_ascii_units)

lemma matrix_roundtrip_default:
  assumes "encodeText primary H = Some qr" "wf_qr qr"
    and "int (length (TextEncoder_encode secondary))
         \<le> max 0 ((int (default_max_bits (length (flippable_positions qr))) - 32) div 8)"
  shows "matrix_roundtrip encodeText primary secondary
         = Inr (TextDecoder_decode (TextEncoder_encode secondary))"
proof -
  from encode_then_decode [where encodeText = encodeText and primary = primary, OF assms]
  obtain m payload where "encode encodeText primary secondary default_options = Inr m"
    "decodeFromMatrix encodeText (getModules m) primary = Inr payload"
    "secondaryMessage payload = TextDecoder_decode (TextEncoder_encode secondary)"
    by blast
  then show ?thesis by (simp add: matrix_roundtrip_def QRStego_encode_def Let_def)
qed

lemma TextEncoder_bom: "TextEncoder_encode [0xFEFF] = [0xEF, 0xBB, 0xBF]"
  by (simp add: TextEncoder_encode_def is_surrogate_def utf8_bytes_def)

lemma TextEncoder_lone_surrogate: "TextEncoder_encode [0xD800] = [0xEF, 0xBF, 0xBD]"
  by (simp add: TextEncoder_encode_def is_surrogate_def utf8_bytes_def)

lemma text_roundtrip_bom: "TextDecoder_decode (TextEncoder_encode [0xFEFF]) = []"
proof -
  have "well_formed [0xFEFF]" by (simp add: is_surrogate_def)
  then show ?thesis by (simp add: text_roundtrip starts_with_bom_def)
qed

lemma text_roundtrip_lone_surrogate:
  "TextDecoder_decode (TextEncoder_encode [0xD800]) = [0xFFFD]"
  by (simp add: decode_encode_scalars is_surrogate_def strip_bom_def utf16_units_def)

subsection \<open>Sample messages\<close>

lemma long_message_length:
  "length (TextEncoder_encode (replicate 65536 0x61)) = 65536"
  by (simp add: TextEncoder_ascii_length)

lemma SECRET_bytes: "TextEncoder_encode (ascii ''SECRET'') = [0x53, 0x45, 0x43, 0x52, 0x45, 0x54]"
  by (simp add: TextEncoder_ascii_units ascii_def)

lemma SECRET_well_formed: "well_formed (ascii ''SECRET'')" "\<not> starts_with_bom (ascii ''SECRET'')"
  by (simp_all add: ascii_def is_surrogate_def is_lead_def starts_with_bom_def)

lemma hi_bytes: "TextEncoder_encode (ascii ''hi'') = [0x68, 0x69]"
  by (simp add: TextEncoder_ascii_units ascii_def)

lemma hi_well_formed: "well_formed (ascii ''hi'')" "\<not> starts_with_bom (ascii ''hi'')"
  by (simp_all add: ascii_def is_surrogate_def is_lead_def starts_with_bom_def)

lemma x_bytes: "TextEncoder_encode (ascii ''x'') = [0x78]"
  by (simp add: TextEncoder_ascii_units ascii_def)

lemma tok_bytes:
  "TextEncoder_encode (ascii ''tok'') = [0x74, 0x6F, 0x6B]"
  "TextEncoder_encode (ascii ''token'') = [0x74, 0x6F, 0x6B, 0x65, 0x6E]"
  by (simp_all add: TextEncoder_ascii_units ascii_def)

lemma encodeSecondaryMessage_too_large:
  assumes "js_gt (Num (of_nat (32 + length (TextEncoder_encode m) * 8))) maxBits"
  shows "is_PayloadTooLarge (encodeSecondaryMessage m maxBits)"
  using assms by (simp add: encodeSecondaryMessage_def Let_def is_PayloadTooLarge_def)

lemma capacity_le_iff:
  assumes "encodeText primary H = Some qr" "wf_qr qr"
    and "getCapacity encodeText primary DEFAULT_SAFETY_MARGIN = Inr capacity"
  shows "js_le (Num (of_nat n)) capacity
         = (int n \<le> max 0 ((int (default_max_bits (length (flippable_positions qr))) - 32) div 8))"
proof -
  let ?c = "max 0 ((int (default_max_bits (length (flippable_positions qr))) - 32) div 8)"
  from assms(3) have c: "capacity = Num (of_int ?c)"
    unfolding getCapacity_default [where encodeText = encodeText and primary = primary
        and qr = qr, OF assms(1,2)] by simp
  have "((of_nat n :: rat) \<le> of_int ?c) = ((of_int (int n) :: rat) \<le> of_int ?c)" by simp
  also have "\<dots> = (int n \<le> ?c)" by (simp only: of_int_le_iff)
  finally show ?thesis unfolding c js_le_Num .
qed

section \<open>The claims\<close>

text \<open>
  C2 (as stated): for all \<open>need \<le> total\<close> with \<open>total \<ge> 2\<close> the entries of
  \<open>generateDistributionPattern need total\<close> are pairwise distinct, also when \<open>total = 2\<close>.
  It fails at \<open>need = total = 2\<close>, where the step falls back to \<open>2\<close> and both entries are \<open>0\<close>.
\<close>

theorem C2_distinct_counterexample:
  "generateDistributionPattern 2 2 = Inr [0, 0] \<and> \<not> distinct [0, 0 :: nat]"
proof -
  have "findLargePrime 2 = 2" by (rule findLargePrime_small) simp
  then have "generateDistributionPattern 2 2 = Inr (map (\<lambda>i. (i * 2) mod 2) [0..<2])"
    using generateDistributionPattern_eq [of 2 2] by simp
  also have "[0..<2] = [0, 1 :: nat]" by (simp add: upt_rec)
  finally show ?thesis by simp
qed

text \<open>
  C2 (amended): for \<open>need \<le> total\<close> and \<open>3 \<le> total \<le> 31329\<close> (every count of modules
  of a QR symbol, whose side is at most 177) the entries of the distribution sequence are
  pairwise distinct.
\<close>

theorem C2_distinct:
  assumes "bitsNeeded \<le> totalModules" "3 \<le> totalModules" "totalModules \<le> 31329"
  shows "\<exists>idx. generateDistributionPattern bitsNeeded totalModules = Inr idx \<and> distinct idx"
  using assms
  by (simp add: generateDistributionPattern_eq prime_step_distinct findLargePrime_coprime)

theorem C2_distinct_witness:
  "(50 :: nat) \<le> 200 \<and> (3 :: nat) \<le> 200 \<and> (200 :: nat) \<le> 31329
   \<and> (\<exists>idx. generateDistributionPattern 50 200 = Inr idx \<and> distinct idx)"
  using C2_distinct [of 50 200] by simp

text \<open>
  C6 (as stated): \<open>decode_frame (encode_frame m max_bits) = m\<close> for every string \<open>m\<close> and
  every \<open>max_bits \<ge> 32 + 8 * |bytes m|\<close>. It fails in three ways. The length prefix has 16
  bits: a message of 65536 bytes is framed with length 0 and decodes to the empty string.
  \<open>new TextDecoder()\<close> drops a leading U+FEFF: the one-unit message U+FEFF decodes to the
  empty string. \<open>TextEncoder\<close> writes a surrogate that is not part of a pair as U+FFFD:
  the one-unit message U+D800 decodes to U+FFFD.
\<close>

theorem C6_roundtrip_counterexample:
  "decode_encode (replicate 65536 0x61) (Num (32 + 8 * 65536)) = Inr []
   \<and> replicate 65536 (0x61 :: 16 word) \<noteq> []
   \<and> decode_encode [0xFEFF] (Num 1000) = Inr []
   \<and> decode_encode [0xD800] (Num 1000) = Inr [0xFFFD]"
proof -
  let ?m = "replicate 65536 (0x61 :: 16 word)"
  let ?bs = "TextEncoder_encode ?m"
  have e: "encodeSecondaryMessage ?m (Num (32 + 8 * 65536)) = Inr (frame ?bs)"
    by (rule encodeSecondaryMessage_frame) (simp add: long_message_length)
  have "read_bits (frame ?bs) 0 16 = take_bit 16 (65536 :: nat)"
    by (simp add: read_frame_length_gen long_message_length)
  also have "\<dots> = 0" by simp
  finally have "decodeSecondaryMessage (frame ?bs) = Inr []"
    by (intro decode_length_65536) (simp_all add: frame_length long_message_length)
  with e have 1: "decode_encode ?m (Num (32 + 8 * 65536)) = Inr []"
    by (simp add: decode_encode_def)
  have 2: "?m \<noteq> []"
  proof
    assume "?m = []"
    then have "length ?m = length ([] :: 16 word list)" by (rule arg_cong)
    then show False by simp
  qed
  have "encodeSecondaryMessage [0xFEFF] (Num 1000) = Inr (frame (TextEncoder_encode [0xFEFF]))"
    by (rule encodeSecondaryMessage_frame) (simp add: TextEncoder_bom)
  moreover have "decodeSecondaryMessage (frame (TextEncoder_encode [0xFEFF]))
      = Inr (TextDecoder_decode (TextEncoder_encode [0xFEFF]))"
    by (rule decode_frame) (simp add: TextEncoder_bom)
  ultimately have 3: "decode_encode [0xFEFF] (Num 1000) = Inr []"
    by (simp add: decode_encode_def text_roundtrip_bom)
  have "encodeSecondaryMessage [0xD800] (Num 1000) = Inr (frame (TextEncoder_encode [0xD800]))"
    by (rule encodeSecondaryMessage_frame) (simp add: TextEncoder_lone_surrogate)
  moreover have "decodeSecondaryMessage (frame (TextEncoder_encode [0xD800]))
      = Inr (TextDecoder_decode (TextEncoder_encode [0xD800]))"
    by (rule decode_frame) (simp add: TextEncoder_lone_surrogate)
  ultimately have 4: "decode_encode [0xD800] (Num 1000) = Inr [0xFFFD]"
    by (simp add: decode_encode_def text_roundtrip_lone_surrogate)
  from 1 2 3 4 show ?thesis by blast
qed

text \<open>
  C6 (amended): for every well-formed string \<open>m\<close> (each surrogate part of a pair) that does
  not begin with U+FEFF and has at most 65535 UTF-8 bytes, and every
  \<open>max_bits \<ge> 32 + 8 * |bytes m|\<close>, decoding the frame that encodes \<open>m\<close> returns \<open>m\<close>.
\<close>

theorem C6_roundtrip:
  assumes "well_formed m" "\<not> starts_with_bom m"
    and "length (TextEncoder_encode m) \<le> 65535"
    and "js_le (Num (of_nat (32 + 8 * length (TextEncoder_encode m)))) maxBits"
  shows "decode_encode m maxBits = Inr m"
proof -
  have "\<not> js_gt (Num (of_nat (32 + length (TextEncoder_encode m) * 8))) maxBits"
    using js_le_not_gt [OF assms(4)] by (simp add: mult.commute)
  then have "encodeSecondaryMessage m maxBits = Inr (frame (TextEncoder_encode m))"
    by (rule encodeSecondaryMessage_frame)
  moreover have "decodeSecondaryMessage (frame (TextEncoder_encode m))
      = Inr (TextDecoder_decode (TextEncoder_encode m))"
    using assms(3) by (intro decode_frame) simp
  ultimately show ?thesis
    using assms(1,2) by (simp add: decode_encode_def text_roundtrip)
qed

theorem C6_roundtrip_witness:
  "well_formed (ascii ''SECRET'') \<and> \<not> starts_with_bom (ascii ''SECRET'')
   \<and> length (TextEncoder_encode (ascii ''SECRET'')) \<le> 65535
   \<and> js_le (Num (of_nat (32 + 8 * length (TextEncoder_encode (ascii ''SECRET''))))) (Num 1000)
   \<and> decode_encode (ascii ''SECRET'') (Num 1000) = Inr (ascii ''SECRET'')"
  using C6_roundtrip [of "ascii ''SECRET''" "Num 1000"]
  by (simp add: SECRET_bytes SECRET_well_formed)

text \<open>
  C7 (as stated): for every string \<open>m\<close>, flipping one bit of the payload region of its frame
  makes \<open>decode_frame\<close> raise ChecksumMismatch. For a message of 65536 bytes the length
  prefix reads 0, and the tampered frame decodes to the empty string without any error.
\<close>

theorem C7_tamper_counterexample:
  "(16 :: nat) \<le> 16
   \<and> (16 :: nat) < 16 + 8 * length (TextEncoder_encode (replicate 65536 0x61))
   \<and> js_le (Num (of_nat (32 + 8 * length (TextEncoder_encode (replicate 65536 0x61)))))
        (Num (32 + 8 * 65536))
   \<and> decode_tampered (replicate 65536 0x61) (Num (32 + 8 * 65536)) 16 = Inr []"
proof -
  let ?m = "replicate 65536 (0x61 :: 16 word)"
  let ?bits = "frame (TextEncoder_encode ?m)"
  have e: "encodeSecondaryMessage ?m (Num (32 + 8 * 65536)) = Inr ?bits"
    by (rule encodeSecondaryMessage_frame) (simp add: long_message_length)
  have "read_bits (?bits[16 := \<not> ?bits ! 16]) 0 16 = read_bits ?bits 0 16"
    by (rule read_bits_cong) (simp add: bit_at_update)
  also have "\<dots> = take_bit 16 (65536 :: nat)"
    by (simp add: read_frame_length_gen long_message_length)
  also have "\<dots> = 0" by simp
  finally have "decodeSecondaryMessage (?bits[16 := \<not> ?bits ! 16]) = Inr []"
    by (intro decode_length_65536) (simp_all add: frame_length long_message_length)
  with e show ?thesis by (simp add: decode_tampered_def long_message_length)
qed

text \<open>
  C7 (amended): for every string \<open>m\<close> of at most 65535 UTF-8 bytes and every
  \<open>max_bits \<ge> 32 + 8 * |bytes m|\<close>, flipping exactly one bit at an offset \<open>k\<close> with
  \<open>16 \<le> k < 16 + 8 * |bytes m|\<close> of the frame makes \<open>decodeSecondaryMessage\<close> raise
  ChecksumMismatch.
\<close>

theorem C7_tamper:
  assumes "length (TextEncoder_encode m) \<le> 65535"
    and "js_le (Num (of_nat (32 + 8 * length (TextEncoder_encode m)))) maxBits"
    and "16 \<le> k" "k < 16 + 8 * length (TextEncoder_encode m)"
  shows "is_ChecksumMismatch (decode_tampered m maxBits k)"
proof -
  have l: "length (TextEncoder_encode m) < 65536" using assms(1) by simp
  from tampered_frame [of "TextEncoder_encode m" k] l assms(3,4)
  obtain e where "decodeSecondaryMessage ((frame (TextEncoder_encode m))
      [k := \<not> frame (TextEncoder_encode m) ! k])
      = Inl (ChecksumMismatch e (calculateChecksum (TextEncoder_encode m)))"
    by auto
  moreover have "\<not> js_gt (Num (of_nat (32 + length (TextEncoder_encode m) * 8))) maxBits"
    using js_le_not_gt [OF assms(2)] by (simp add: mult.commute)
  ultimately show ?thesis
    by (simp add: decode_tampered_def encodeSecondaryMessage_frame is_ChecksumMismatch_def)
qed

theorem C7_tamper_witness:
  "length (TextEncoder_encode (ascii ''SECRET'')) \<le> 65535
   \<and> js_le (Num (of_nat (32 + 8 * length (TextEncoder_encode (ascii ''SECRET''))))) (Num 1000)
   \<and> (16 :: nat) \<le> 20 \<and> 20 < 16 + 8 * length (TextEncoder_encode (ascii ''SECRET''))
   \<and> is_ChecksumMismatch (decode_tampered (ascii ''SECRET'') (Num 1000) 20)"
  using C7_tamper [of "ascii ''SECRET''" "Num 1000" 20] by (simp add: SECRET_bytes)



text \<open>
  C9: encoding the empty secondary message gives a frame of exactly 32 bits, the 16-bit length
  \<open>0x0000\<close> followed by the 16-bit checksum \<open>0xFFFF\<close>; \<open>calculateChecksum\<close> of the empty
  byte sequence is \<open>0xFFFF\<close>.
\<close>

theorem C9_empty_frame:
  assumes "js_le (Num 32) maxBits"
  shows "encodeSecondaryMessage [] maxBits = Inr (push_bits 16 0x0000 @ push_bits 16 0xFFFF)
         \<and> push_bits 16 0x0000 @ push_bits 16 0xFFFF = replicate 16 False @ replicate 16 True
         \<and> length (push_bits 16 0x0000 @ push_bits 16 0xFFFF) = 32
         \<and> calculateChecksum [] = 0xFFFF"
proof -
  have "\<not> js_gt (Num 32) maxBits" using assms by (rule js_le_not_gt)
  then show ?thesis
    by (simp add: encodeSecondaryMessage_def TextEncoder_encode_def calculateChecksum_Nil
        push_bits_zero push_bits_ffff)
qed

theorem C9_empty_frame_witness:
  "js_le (Num 32) (Num 32)
   \<and> encodeSecondaryMessage [] (Num 32) = Inr (push_bits 16 0x0000 @ push_bits 16 0xFFFF)
   \<and> push_bits 16 0x0000 @ push_bits 16 0xFFFF = replicate 16 False @ replicate 16 True
   \<and> length (push_bits 16 0x0000 @ push_bits 16 0xFFFF) = 32
   \<and> calculateChecksum [] = 0xFFFF"
  using C9_empty_frame [of "Num 32"] by simp

text \<open>
  C1 (as stated): for every primary accepted by the QR engine and every secondary whose UTF-8
  byte length is at most \<open>getCapacity primary\<close>, decoding the module matrix of the encoded
  symbol with the same primary returns that secondary. With a symbol of capacity 3 bytes,
  the one-unit secondary U+FEFF (3 bytes) comes back as the empty string, because
  \<open>new TextDecoder()\<close> drops a leading U+FEFF, and the one-unit secondary U+D800 (encoded in 3
  bytes) comes back as U+FFFD, because \<open>TextEncoder\<close> replaces a surrogate that is
  not part of a pair.
\<close>

theorem C1_roundtrip_counterexample:
  "sample_engine (ascii ''hello world'') H = Some sample_qr \<and> wf_qr sample_qr
   \<and> getCapacity sample_engine (ascii ''hello world'') DEFAULT_SAFETY_MARGIN = Inr (Num 3)
   \<and> js_le (Num (of_nat (length (TextEncoder_encode [0xFEFF])))) (Num 3)
   \<and> matrix_roundtrip sample_engine (ascii ''hello world'') [0xFEFF] = Inr []
   \<and> js_le (Num (of_nat (length (TextEncoder_encode [0xD800])))) (Num 3)
   \<and> matrix_roundtrip sample_engine (ascii ''hello world'') [0xD800] = Inr [0xFFFD]"
proof -
  have h1: "sample_engine (ascii ''hello world'') H = Some sample_qr"
    by (simp add: sample_engine_def)
  have c: "max 0 ((int (default_max_bits (length (flippable_positions sample_qr))) - 32) div 8) = 3"
    by (simp add: sample_length default_max_bits_def)
  have "matrix_roundtrip sample_engine (ascii ''hello world'') [0xFEFF]
        = Inr (TextDecoder_decode (TextEncoder_encode [0xFEFF]))"
    by (rule matrix_roundtrip_default [where encodeText = sample_engine
          and primary = "ascii ''hello world''" and qr = sample_qr, OF h1 sample_wf])
      (simp add: c TextEncoder_bom)
  then have r1: "matrix_roundtrip sample_engine (ascii ''hello world'') [0xFEFF] = Inr []"
    by (simp only: text_roundtrip_bom)
  have "matrix_roundtrip sample_engine (ascii ''hello world'') [0xD800]
        = Inr (TextDecoder_decode (TextEncoder_encode [0xD800]))"
    by (rule matrix_roundtrip_default [where encodeText = sample_engine
          and primary = "ascii ''hello world''" and qr = sample_qr, OF h1 sample_wf])
      (simp add: c TextEncoder_lone_surrogate)
  then have r2: "matrix_roundtrip sample_engine (ascii ''hello world'') [0xD800] = Inr [0xFFFD]"
    by (simp only: text_roundtrip_lone_surrogate)
  show ?thesis
    using h1 sample_wf r1 r2
    by (simp add: sample_capacity TextEncoder_bom TextEncoder_lone_surrogate)
qed

text \<open>
  C1 (amended): for every primary accepted by the QR engine (which returns a QR symbol of a
  version 1 to 40, of side \<open>17 + 4 * version\<close>) and every well-formed secondary that does not
  begin with U+FEFF and whose UTF-8 byte length is at most \<open>getCapacity primary\<close>, encoding
  with the default options and decoding the module matrix of the result with the same
  primary returns that secondary.
\<close>

theorem C1_roundtrip:
  assumes "encodeText primary H = Some qr" "wf_qr qr"
    and "getCapacity encodeText primary DEFAULT_SAFETY_MARGIN = Inr capacity"
    and "js_le (Num (of_nat (length (TextEncoder_encode secondary)))) capacity"
    and "well_formed secondary" "\<not> starts_with_bom secondary"
  shows "matrix_roundtrip encodeText primary secondary = Inr secondary"
proof -
  from assms(4) have "int (length (TextEncoder_encode secondary))
      \<le> max 0 ((int (default_max_bits (length (flippable_positions qr))) - 32) div 8)"
    unfolding capacity_le_iff [where encodeText = encodeText and primary = primary
        and qr = qr, OF assms(1,2,3)] .
  from matrix_roundtrip_default [where encodeText = encodeText and primary = primary,
      OF assms(1,2) this]
  show ?thesis using assms(5,6) by (simp add: text_roundtrip)
qed

theorem C1_roundtrip_witness:
  "sample_engine (ascii ''https://example.com'') H = Some sample_qr \<and> wf_qr sample_qr
   \<and> getCapacity sample_engine (ascii ''https://example.com'') DEFAULT_SAFETY_MARGIN
       = Inr (Num 3)
   \<and> js_le (Num (of_nat (length (TextEncoder_encode (ascii ''hi''))))) (Num 3)
   \<and> well_formed (ascii ''hi'') \<and> \<not> starts_with_bom (ascii ''hi'')
   \<and> matrix_roundtrip sample_engine (ascii ''https://example.com'') (ascii ''hi'')
       = Inr (ascii ''hi'')"
proof -
  have h1: "sample_engine (ascii ''https://example.com'') H = Some sample_qr"
    by (simp add: sample_engine_def)
  have h3: "getCapacity sample_engine (ascii ''https://example.com'') DEFAULT_SAFETY_MARGIN
            = Inr (Num 3)"
    by (rule sample_capacity)
  have h4: "js_le (Num (of_nat (length (TextEncoder_encode (ascii ''hi''))))) (Num 3)"
    by (simp add: hi_bytes)
  from C1_roundtrip [where encodeText = sample_engine
      and primary = "ascii ''https://example.com''",
      OF h1 sample_wf h3 h4 hi_well_formed] h1 sample_wf h3 h4 hi_well_formed
  show ?thesis by blast
qed

text \<open>
  C4 (as stated): the encoder fails with InsufficientCapacity exactly when the bit capacity
  \<open>M\<close> is at most 32. The guard of the source is \<open>maxBits <= 0\<close>: with 351 flippable modules
  and safety margin 0.03 the capacity is \<open>M = 23\<close>, and the encoder reaches the framing step,
  which fails with PayloadTooLarge.
\<close>

theorem C4_capacity_guard_counterexample:
  "sample_engine (ascii ''https://example.com'') (mapECLevel H) = Some sample_qr
   \<and> identifyFlippableModules (convertToQRMatrix sample_qr) = Inr (flippable_positions sample_qr)
   \<and> flippable_positions sample_qr \<noteq> []
   \<and> calculateMaxCapacity (flippable_positions sample_qr) H (to_double (3 / 100)) = Num 23
   \<and> js_le (Num 23) (Num 32)
   \<and> encode sample_engine (ascii ''https://example.com'') (ascii ''x'')
        \<lparr>opt_ecLevel = Some H, opt_safetyMargin = Some (to_double (3 / 100))\<rparr>
      = Inl (PayloadTooLarge 1 (Num (- 2)))"
proof -
  let ?o = "\<lparr>opt_ecLevel = Some H, opt_safetyMargin = Some (to_double (3 / 100))\<rparr>"
  have o: "options_ecLevel ?o = H" "options_safetyMargin ?o = to_double (3 / 100)"
    by (simp_all add: options_ecLevel_def options_safetyMargin_def)
  have ne: "flippable_positions sample_qr \<noteq> []" using sample_length by auto
  have e: "sample_engine (ascii ''https://example.com'') (mapECLevel (options_ecLevel ?o))
           = Some sample_qr"
    by (simp add: sample_engine_def)
  have b: "js_floor (js_div (js_sub (Num (of_nat 23)) (Num 32)) (Num 8)) = Num (of_int (- 2))"
    by (subst capacity_bytes) simp_all
  have x: "ascii ''x'' \<noteq> []" by (simp add: ascii_def)
  have "encode sample_engine (ascii ''https://example.com'') (ascii ''x'') ?o
        = Inl (PayloadTooLarge 1 (Num (- 2)))"
    unfolding encode_unfold [where encodeText = sample_engine and options = ?o
        and primary = "ascii ''https://example.com''" and qr = sample_qr, OF e] o
    using ne x b by (simp add: sample_low_margin encodeSecondaryMessage_def Let_def x_bytes)
  then show ?thesis
    using ne by (simp add: sample_engine_def identify_convertToQRMatrix sample_low_margin)
qed

text \<open>
  C4 (amended): for every primary and every options value for which QR generation succeeds
  and the flippable enumeration is not empty, the encoder fails with InsufficientCapacity
  exactly when the computed bit capacity \<open>M\<close> satisfies \<open>M <= 0\<close>; when \<open>0 < M \<le> 32\<close> a
  non-empty secondary fails with PayloadTooLarge and the empty secondary is encoded without
  any flip.
\<close>

theorem C4_capacity_guard:
  assumes "encodeText primary (mapECLevel (options_ecLevel options)) = Some baseQR"
    and "identifyFlippableModules (convertToQRMatrix baseQR) = Inr flippableModules"
    and "flippableModules \<noteq> []"
  shows "let M = calculateMaxCapacity flippableModules (options_ecLevel options)
                   (options_safetyMargin options)
         in ((encode encodeText primary secondary options = Inl InsufficientCapacity)
               = js_le M (Num 0))
          \<and> (\<not> js_le M (Num 0) \<and> js_le M (Num 32) \<and> secondary \<noteq> []
               \<longrightarrow> is_PayloadTooLarge (encode encodeText primary secondary options))
          \<and> (\<not> js_le M (Num 0) \<and> js_le M (Num 32) \<and> secondary = []
               \<longrightarrow> encode encodeText primary secondary options
                     = Inr ((convertToQRMatrix baseQR)\<lparr>flippedModuleCount := Some 0\<rparr>))"
proof -
  have fm: "flippableModules = flippable_positions baseQR"
    using assms(2) by (simp add: identify_convertToQRMatrix)
  define M where "M = calculateMaxCapacity (flippable_positions baseQR) (options_ecLevel options)
              (options_safetyMargin options)"
  note eu = encode_unfold [where encodeText = encodeText and options = options
        and primary = primary and qr = baseQR, OF assms(1), folded M_def]
  have ne: "flippable_positions baseQR \<noteq> []" using assms(3) fm by simp
  have 1: "(encode encodeText primary secondary options = Inl InsufficientCapacity)
           = js_le M (Num 0)"
  proof (cases "js_le M (Num 0)")
    case True
    then show ?thesis using ne by (simp add: eu)
  next
    case False
    have "encode encodeText primary secondary options \<noteq> Inl InsufficientCapacity"
    proof
      assume a: "encode encodeText primary secondary options = Inl InsufficientCapacity"
      let ?bits = "if length secondary > 0 then encodeSecondaryMessage secondary M else Inr []"
      from a False ne
      have c: "(case ?bits of Inl e \<Rightarrow> Inl e
                | Inr secondaryBits \<Rightarrow>
                    (case createFlipMap secondaryBits (flippable_positions baseQR) of
                       Inl e \<Rightarrow> Inl e
                     | Inr flipMap \<Rightarrow> applyFlips (convertToQRMatrix baseQR) flipMap))
               = Inl InsufficientCapacity"
        by (simp add: eu)
      show False
      proof (cases ?bits)
        case (Inl e)
        then have "\<exists>a b. e = PayloadTooLarge a b"
          by (auto dest: encodeSecondaryMessage_error split: if_splits)
        with c Inl show False by auto
      next
        case (Inr bits)
        show False
        proof (cases "createFlipMap bits (flippable_positions baseQR)")
          case (Inl e)
          then have "\<exists>a b. e = CapacityExceeded a b" by (rule createFlipMap_error)
          with c Inr Inl show False by auto
        next
          case fmap: (Inr flipMap)
          with c Inr have "applyFlips (convertToQRMatrix baseQR) flipMap = Inl InsufficientCapacity"
            by simp
          then have "InsufficientCapacity = TypeError" by (rule applyFlips_error)
          then show False by simp
        qed
      qed
    qed
    with False show ?thesis by simp
  qed
  have 2: "is_PayloadTooLarge (encode encodeText primary secondary options)"
    if "\<not> js_le M (Num 0)" "js_le M (Num 32)" "secondary \<noteq> []"
  proof -
    have "js_gt (Num (of_nat (32 + length (TextEncoder_encode secondary) * 8))) M"
    proof (cases M)
      case (Num m)
      with that(2) have m: "m \<le> 32" by simp
      have "0 < length (TextEncoder_encode secondary)" using that(3) by simp
      then have "(0 :: rat) < of_nat (length (TextEncoder_encode secondary))"
        by (simp only: of_nat_0_less_iff)
      with m have "m < 32 + of_nat (length (TextEncoder_encode secondary)) * 8" by linarith
      then have "m < of_nat (32 + length (TextEncoder_encode secondary) * 8)"
        by (simp only: of_nat_add of_nat_mult of_nat_numeral)
      then show ?thesis unfolding Num js_gt_Num .
    next
      case PosInf
      with that(2) show ?thesis by (simp add: js_le_def)
    next
      case NegInf
      with that(1) show ?thesis by (simp add: js_le_def)
    next
      case NaN
      with that(2) show ?thesis by (simp add: js_le_def)
    qed
    then have "is_PayloadTooLarge (encodeSecondaryMessage secondary M)"
      by (rule encodeSecondaryMessage_too_large)
    then show ?thesis
      using that(1,3) ne
      by (auto simp: eu is_PayloadTooLarge_def split: sum.splits)
  qed
  have 3: "encode encodeText primary secondary options
           = Inr ((convertToQRMatrix baseQR)\<lparr>flippedModuleCount := Some 0\<rparr>)"
    if "\<not> js_le M (Num 0)" "secondary = []"
    using that ne by (simp add: eu createFlipMap_Nil applyFlips_Nil)
  from 1 2 3 show ?thesis unfolding fm Let_def M_def [symmetric] by blast
qed

theorem C4_capacity_guard_witness:
  "sample_engine (ascii ''https://example.com'')
     (mapECLevel (options_ecLevel \<lparr>opt_ecLevel = Some H,
        opt_safetyMargin = Some (to_double (3 / 100))\<rparr>)) = Some sample_qr
   \<and> identifyFlippableModules (convertToQRMatrix sample_qr) = Inr (flippable_positions sample_qr)
   \<and> flippable_positions sample_qr \<noteq> []
   \<and> \<not> js_le (Num 23) (Num 0) \<and> js_le (Num 23) (Num 32) \<and> ascii ''x'' \<noteq> []
   \<and> encode sample_engine (ascii ''https://example.com'') (ascii ''x'')
        \<lparr>opt_ecLevel = Some H, opt_safetyMargin = Some (to_double (3 / 100))\<rparr>
       \<noteq> Inl InsufficientCapacity
   \<and> is_PayloadTooLarge (encode sample_engine (ascii ''https://example.com'') (ascii ''x'')
        \<lparr>opt_ecLevel = Some H, opt_safetyMargin = Some (to_double (3 / 100))\<rparr>)
   \<and> encode sample_engine (ascii ''https://example.com'') []
        \<lparr>opt_ecLevel = Some H, opt_safetyMargin = Some (to_double (3 / 100))\<rparr>
       = Inr ((convertToQRMatrix sample_qr)\<lparr>flippedModuleCount := Some 0\<rparr>)"
proof -
  let ?o = "\<lparr>opt_ecLevel = Some H, opt_safetyMargin = Some (to_double (3 / 100))\<rparr>"
  have o: "options_ecLevel ?o = H" "options_safetyMargin ?o = to_double (3 / 100)"
    by (simp_all add: options_ecLevel_def options_safetyMargin_def)
  have h1: "sample_engine (ascii ''https://example.com'') (mapECLevel (options_ecLevel ?o))
            = Some sample_qr" by (simp add: sample_engine_def)
  have h2: "identifyFlippableModules (convertToQRMatrix sample_qr)
     = Inr (flippable_positions sample_qr)" by (rule identify_convertToQRMatrix)
  have h3: "flippable_positions sample_qr \<noteq> []" using sample_length by auto
  have x: "ascii ''x'' \<noteq> []" by (simp add: ascii_def)
  from C4_capacity_guard [where encodeText = sample_engine and options = ?o
      and primary = "ascii ''https://example.com''" and baseQR = sample_qr
      and secondary = "ascii ''x''", OF h1 h2 h3]
    C4_capacity_guard [where encodeText = sample_engine and options = ?o
      and primary = "ascii ''https://example.com''" and baseQR = sample_qr
      and secondary = "[]", OF h1 h2 h3]
    h1 h2 h3 x
  show ?thesis unfolding o sample_low_margin Let_def by simp
qed

text \<open>
  C5: for every primary (accepted by the QR engine, which returns a symbol of version 1 to 40)
  and every secondary: if \<open>validateCapacity\<close> returns true then \<open>encode\<close> does not raise
  PayloadTooLarge, and if it returns false then \<open>encode\<close> raises PayloadTooLarge.
\<close>

theorem C5_capacity_admission:
  assumes "encodeText primary H = Some qr" "wf_qr qr"
  shows "(validateCapacity encodeText primary secondary DEFAULT_SAFETY_MARGIN = Inr True
            \<longrightarrow> \<not> is_PayloadTooLarge (encode encodeText primary secondary default_options))
       \<and> (validateCapacity encodeText primary secondary DEFAULT_SAFETY_MARGIN = Inr False
            \<longrightarrow> is_PayloadTooLarge (encode encodeText primary secondary default_options))"
proof -
  let ?ps = "flippable_positions qr"
  let ?B = "default_max_bits (length ?ps)"
  let ?cap = "max 0 ((int ?B - 32) div 8)"
  let ?bs = "TextEncoder_encode secondary"
  have "((of_nat (length ?bs) :: rat) \<le> of_int ?cap) = ((of_int (int (length ?bs)) :: rat) \<le> of_int ?cap)"
    by simp
  also have "\<dots> = (int (length ?bs) \<le> ?cap)" by (simp only: of_int_le_iff)
  finally have v: "validateCapacity encodeText primary secondary DEFAULT_SAFETY_MARGIN
           = Inr (int (length ?bs) \<le> ?cap)"
    by (simp add: validateCapacity_def
        getCapacity_default [where encodeText = encodeText and primary = primary and qr = qr,
          OF assms])
  from wf_flippable_bounds [OF assms(2)] have t: "16 \<le> length ?ps" "length ?ps \<le> 31329" by simp_all
  have M: "calculateMaxCapacity ?ps H DEFAULT_SAFETY_MARGIN = Num (of_nat ?B)"
    using t(2) by (rule calculateMaxCapacity_default)
  have Mpos: "0 < ?B" using t by (intro default_max_bits_pos) simp
  have ne: "?ps \<noteq> []" using t by auto
  have e: "encodeText primary (mapECLevel (options_ecLevel default_options)) = Some qr"
    using assms(1) by simp
  note eu = encode_unfold [where encodeText = encodeText and options = default_options
        and primary = primary and qr = qr, OF e]
  show ?thesis
  proof (intro conjI impI)
    assume "validateCapacity encodeText primary secondary DEFAULT_SAFETY_MARGIN = Inr True"
    with v have "int (length ?bs) \<le> ?cap" by simp
    from encode_then_decode [where encodeText = encodeText and primary = primary,
        OF assms(1,2) this]
    obtain m where "encode encodeText primary secondary default_options = Inr m" by blast
    then show "\<not> is_PayloadTooLarge (encode encodeText primary secondary default_options)"
      by (simp add: is_PayloadTooLarge_def)
  next
    assume "validateCapacity encodeText primary secondary DEFAULT_SAFETY_MARGIN = Inr False"
    with v have "\<not> int (length ?bs) \<le> ?cap" by simp
    then have gt: "0 < int (length ?bs)" "(int ?B - 32) div 8 < int (length ?bs)"
      by (simp_all only: not_le max_less_iff_conj)
    from gt(1) have s: "secondary \<noteq> []" by (auto simp: TextEncoder_encode_def)
    from gt(2) have "int ?B < 32 + int (length ?bs) * 8" by linarith
    then have big: "?B < 32 + length ?bs * 8" by linarith
    then have "js_gt (Num (of_nat (32 + length ?bs * 8))) (Num (of_nat ?B))"
      by (simp only: js_gt_Num of_nat_less_iff)
    then have "is_PayloadTooLarge (encodeSecondaryMessage secondary (Num (of_nat ?B)))"
      by (rule encodeSecondaryMessage_too_large)
    then show "is_PayloadTooLarge (encode encodeText primary secondary default_options)"
      unfolding eu using ne Mpos s
      by (auto simp: M is_PayloadTooLarge_def split: sum.splits)
  qed
qed

theorem C5_capacity_admission_witness:
  "sample_engine (ascii ''https://example.com'') H = Some sample_qr \<and> wf_qr sample_qr
   \<and> validateCapacity sample_engine (ascii ''https://example.com'') (ascii ''tok'')
        DEFAULT_SAFETY_MARGIN = Inr True
   \<and> \<not> is_PayloadTooLarge (encode sample_engine (ascii ''https://example.com'') (ascii ''tok'')
          default_options)
   \<and> validateCapacity sample_engine (ascii ''https://example.com'') (ascii ''token'')
        DEFAULT_SAFETY_MARGIN = Inr False
   \<and> is_PayloadTooLarge (encode sample_engine (ascii ''https://example.com'') (ascii ''token'')
        default_options)"
proof -
  have h1: "sample_engine (ascii ''https://example.com'') H = Some sample_qr"
    by (simp add: sample_engine_def)
  have v1: "validateCapacity sample_engine (ascii ''https://example.com'') (ascii ''tok'')
              DEFAULT_SAFETY_MARGIN = Inr True"
    by (simp add: validateCapacity_def sample_capacity tok_bytes)
  have v2: "validateCapacity sample_engine (ascii ''https://example.com'') (ascii ''token'')
              DEFAULT_SAFETY_MARGIN = Inr False"
    by (simp add: validateCapacity_def sample_capacity tok_bytes)
  from C5_capacity_admission [where encodeText = sample_engine
      and primary = "ascii ''https://example.com''" and secondary = "ascii ''tok''",
      OF h1 sample_wf]
    C5_capacity_admission [where encodeText = sample_engine
      and primary = "ascii ''https://example.com''" and secondary = "ascii ''token''",
      OF h1 sample_wf]
    h1 sample_wf v1 v2
  show ?thesis by blast
qed

text \<open>
  C10: for every primary for which encoding succeeds with the empty secondary, the module
  values of the returned matrix are those of the base QR matrix (no module is flipped), the
  flipped count is 0, and, the base being generated at level H as by default, decoding that
  matrix with the same primary yields the secondary \<open>""\<close>.
\<close>

theorem C10_empty_secondary:
  assumes "encodeText primary (mapECLevel (options_ecLevel options)) = Some baseQR"
    and "QRStego_encode encodeText primary [] options = Inr res"
  shows "getModules (res_matrix res) = getModules (convertToQRMatrix baseQR)
       \<and> getModules (res_matrix res) = qrToModuleMatrix baseQR
       \<and> flippedModuleCount (res_matrix res) = Some 0
       \<and> meta_flippedModuleCount (res_metadata res) = 0
       \<and> (options_ecLevel options = H \<longrightarrow>
            (\<exists>payload. decodeFromMatrix encodeText (getModules (res_matrix res)) primary
                         = Inr payload
                      \<and> secondaryMessage payload = [] \<and> primaryMessage payload = primary))"
proof -
  note eu = encode_unfold [where encodeText = encodeText and options = options
        and primary = primary and qr = baseQR and secondary = "[]", OF assms(1)]
  from assms(2) obtain m where m: "encode encodeText primary [] options = Inr m"
    and r: "res_matrix res = m"
      "meta_flippedModuleCount (res_metadata res)
         = (case flippedModuleCount m of None \<Rightarrow> 0 | Some c \<Rightarrow> c)"
    by (auto simp: QRStego_encode_def Let_def split: sum.splits)
  from m have mm: "m = (convertToQRMatrix baseQR)\<lparr>flippedModuleCount := Some 0\<rparr>"
    unfolding eu by (simp add: createFlipMap_Nil applyFlips_Nil split: if_splits)
  have g: "getModules m = qrToModuleMatrix baseQR"
    unfolding mm using getModules_convertToQRMatrix [of baseQR] by (simp add: getModules_def)
  have d: "\<exists>payload. decodeFromMatrix encodeText (getModules m) primary = Inr payload
                      \<and> secondaryMessage payload = [] \<and> primaryMessage payload = primary"
    if "options_ecLevel options = H"
  proof -
    from assms(1) that have e: "encodeText primary H = Some baseQR" by simp
    show ?thesis
      unfolding decode_unfold [where encodeText = encodeText and primary = primary
          and qr = baseQR, OF e] g
      by (simp add: compare_unflipped)
  qed
  show ?thesis
    using g d by (simp add: r mm getModules_convertToQRMatrix)
qed

theorem C10_empty_secondary_witness:
  "\<exists>res. sample_engine (ascii ''https://example.com/page'')
            (mapECLevel (options_ecLevel default_options)) = Some sample_qr
     \<and> QRStego_encode sample_engine (ascii ''https://example.com/page'') [] default_options
         = Inr res
     \<and> getModules (res_matrix res) = qrToModuleMatrix sample_qr
     \<and> flippedModuleCount (res_matrix res) = Some 0
     \<and> meta_flippedModuleCount (res_metadata res) = 0
     \<and> options_ecLevel default_options = H
     \<and> (\<exists>payload. decodeFromMatrix sample_engine (getModules (res_matrix res))
                      (ascii ''https://example.com/page'') = Inr payload
                   \<and> secondaryMessage payload = [])"
proof -
  have h0: "sample_engine (ascii ''https://example.com/page'') H = Some sample_qr"
    by (simp add: sample_engine_def)
  have h1: "sample_engine (ascii ''https://example.com/page'')
              (mapECLevel (options_ecLevel default_options)) = Some sample_qr"
    by (simp add: sample_engine_def)
  have "int (length (TextEncoder_encode [])) \<le> max 0
          ((int (default_max_bits (length (flippable_positions sample_qr))) - 32) div 8)"
    by (simp add: TextEncoder_encode_def)
  from encode_then_decode [where encodeText = sample_engine
      and primary = "ascii ''https://example.com/page''", OF h0 sample_wf this]
  obtain m where "encode sample_engine (ascii ''https://example.com/page'') [] default_options
                  = Inr m"
    by blast
  then obtain res where
    h2: "QRStego_encode sample_engine (ascii ''https://example.com/page'') [] default_options
         = Inr res"
    by (simp add: QRStego_encode_def Let_def)
  from C10_empty_secondary [where encodeText = sample_engine
      and primary = "ascii ''https://example.com/page''" and options = default_options
      and baseQR = sample_qr, OF h1 h2] h1 h2
  show ?thesis by auto
qed

end
